theory Spec2Isabelle
  imports Complex_Main "HOL-Library.Word" "HOL-Library.Code_Target_Numeral"
begin

section \<open>Data model\<close>

text \<open>
  The network of \<^verbatim>\<open>include/network.h\<close> and the numeric helpers of \<^verbatim>\<open>include/common.h\<close>
  and \<^verbatim>\<open>include/activation.h\<close>. The template parameter \<^verbatim>\<open>T\<close> is instantiated with the
  real numbers: arithmetic is exact, rounding and overflow of \<^verbatim>\<open>double\<close> are outside the
  model, and the only non-finite values that appear are the results of a division by zero,
  which are written out (type \<open>fp\<close>). C++ \<^verbatim>\<open>int\<close> is a 32-bit word read with \<open>sint\<close>,
  \<^verbatim>\<open>size_t\<close> a natural number with the conversions from \<^verbatim>\<open>int\<close> written out.
  Memory is unbounded: no allocation fails for lack of memory.
\<close>

type_synonym Vector = "real list"
type_synonym Matrix = "real list list"
type_synonym c_int = "32 word"

text \<open>
  The exceptions the code can raise (\<^verbatim>\<open>std::invalid_argument\<close> in \<^verbatim>\<open>dot_product\<close>,
  \<^verbatim>\<open>std::length_error\<close> in the constructors of \<^verbatim>\<open>std::vector\<close>), and undefined
  behaviour: \<^verbatim>\<open>operator[]\<close> out of range, \<^verbatim>\<open>back()\<close> of an empty vector, dereferencing
  \<^verbatim>\<open>end()\<close>, signed overflow. None of these is caught inside the network.
\<close>

datatype error = InvalidArgument | LengthError | UndefinedBehaviour

datatype fp = Fin real | PosInf | NegInf | NaN

record NeuralNetwork =
  weights :: "Matrix list"
  biases :: "Vector list"
  activations :: "Vector list"
  z_values :: "Vector list"
  learning_rate :: real

subsection \<open>Sequencing, checked indexing, counted loops\<close>

definition sum_bind :: "error + 'a \<Rightarrow> ('a \<Rightarrow> error + 'b) \<Rightarrow> error + 'b" where
  "sum_bind r f = (case r of Inl e \<Rightarrow> Inl e | Inr v \<Rightarrow> f v)"

text \<open>\<^verbatim>\<open>v[i]\<close> on a \<^verbatim>\<open>std::vector\<close>: no bounds check, undefined out of range.\<close>

definition at_index :: "'a list \<Rightarrow> nat \<Rightarrow> error + 'a" where
  "at_index xs i = (if i < length xs then Inr (xs ! i) else Inl UndefinedBehaviour)"

text \<open>
  \<^verbatim>\<open>for (size_t k = lo; k < hi; ++k) body\<close>, for a bound the body does not change; the
  first failing iteration ends the loop.
\<close>

definition for_loop :: "nat \<Rightarrow> nat \<Rightarrow> (nat \<Rightarrow> 's \<Rightarrow> error + 's) \<Rightarrow> 's \<Rightarrow> error + 's" where
  "for_loop lo hi body s = fold (\<lambda>k r. sum_bind r (body k)) [lo..<hi] (Inr s)"

subsection \<open>Floating-point division by zero\<close>

definition fp_div :: "real \<Rightarrow> real \<Rightarrow> fp" where
  "fp_div x y =
     (if y \<noteq> 0 then Fin (x / y)
      else if x = 0 then NaN
      else if 0 < x then PosInf else NegInf)"

definition fp_mult :: "fp \<Rightarrow> real \<Rightarrow> fp" where
  "fp_mult a c =
     (case a of
        Fin x \<Rightarrow> Fin (x * c)
      | NaN \<Rightarrow> NaN
      | PosInf \<Rightarrow> (if 0 < c then PosInf else if c < 0 then NegInf else NaN)
      | NegInf \<Rightarrow> (if 0 < c then NegInf else if c < 0 then PosInf else NaN))"

section \<open>common.h and activation.h\<close>

definition EPSILON :: real where
  "EPSILON = 1 / 1000000"

definition dot_product :: "Vector \<Rightarrow> Vector \<Rightarrow> error + real" where
  "dot_product a b =
     (if length a \<noteq> length b then Inl InvalidArgument
      else Inr (fold (\<lambda>i result. result + a ! i * b ! i) [0..<length a] 0))"

definition apply_function :: "Vector \<Rightarrow> (real \<Rightarrow> real) \<Rightarrow> Vector" where
  "apply_function vec func = map func vec"

text \<open>
  \<^verbatim>\<open>std::max_element\<close>, as an index: the first position holding the largest element, and
  the end position (\<open>0 = length xs\<close>) on an empty range.
\<close>

definition max_element :: "Vector \<Rightarrow> nat" where
  "max_element xs =
     fold (\<lambda>i largest. if xs ! largest < xs ! i then i else largest) [1..<length xs] 0"

definition softmax :: "Vector \<Rightarrow> error + Vector" where
  "softmax vec =
     (if vec = [] then Inl UndefinedBehaviour
      else
        let max_elem = vec ! max_element vec;
            exp_values = map (\<lambda>x. exp (x - max_elem)) vec;
            sum_exp = fold (\<lambda>v s. s + v) exp_values 0
        in Inr (map (\<lambda>value. value / sum_exp) exp_values))"

definition relu :: "real \<Rightarrow> real" where
  "relu x = max 0 x"

definition relu_derivative :: "real \<Rightarrow> real" where
  "relu_derivative x = (if x > 0 then 1 else 0)"

text \<open>\<^verbatim>\<open>Activation::softmax\<close>: the same computation, declared in another order.\<close>

definition Activation_softmax :: "Vector \<Rightarrow> error + Vector" where
  "Activation_softmax x =
     (if x = [] then Inl UndefinedBehaviour
      else
        let max_elem = x ! max_element x;
            exp_values = map (\<lambda>v. exp (v - max_elem)) x;
            sum_exp = fold (\<lambda>v s. s + v) exp_values 0
        in Inr (map (\<lambda>value. value / sum_exp) exp_values))"

section \<open>network.h\<close>

subsection \<open>Construction\<close>

text \<open>
  \<^verbatim>\<open>Vector<T>(n)\<close> with \<^verbatim>\<open>n\<close> of type \<^verbatim>\<open>int\<close>: the count is converted to \<^verbatim>\<open>size_t\<close>
  (64 bits, a negative value wraps), and the constructor of \<^verbatim>\<open>std::vector\<close> throws
  \<^verbatim>\<open>std::length_error\<close> when the count exceeds \<^verbatim>\<open>max_size()\<close>, which is
  \<^verbatim>\<open>PTRDIFF_MAX / sizeof(element)\<close>; the elements are 8 bytes (\<^verbatim>\<open>double\<close>) or 24 bytes
  (\<^verbatim>\<open>std::vector<double>\<close>).
\<close>

definition size_t_of_int :: "c_int \<Rightarrow> nat" where
  "size_t_of_int n = (if sint n < 0 then nat (2 ^ 64 + sint n) else nat (sint n))"

definition max_size :: "nat \<Rightarrow> nat" where
  "max_size elem_bytes = (2 ^ 63 - 1) div elem_bytes"

definition vector_n :: "nat \<Rightarrow> c_int \<Rightarrow> 'a \<Rightarrow> error + 'a list" where
  "vector_n elem_bytes n v =
     (if max_size elem_bytes < size_t_of_int n then Inl LengthError
      else Inr (replicate (size_t_of_int n) v))"

text \<open>
  The random generator is a parameter: \<open>dis k\<close> is the \<open>k\<close>-th number drawn. The two
  range-for loops overwrite every entry of the new matrix, row by row.
\<close>

fun fill_row :: "(nat \<Rightarrow> real) \<Rightarrow> nat \<Rightarrow> Vector \<Rightarrow> Vector \<times> nat" where
  "fill_row dis k [] = ([], k)"
| "fill_row dis k (weight # row) =
     (case fill_row dis (Suc k) row of (row', k') \<Rightarrow> (dis k # row', k'))"

fun fill_rows :: "(nat \<Rightarrow> real) \<Rightarrow> nat \<Rightarrow> Matrix \<Rightarrow> Matrix \<times> nat" where
  "fill_rows dis k [] = ([], k)"
| "fill_rows dis k (row # rows) =
     (case fill_row dis k row of (row', k') \<Rightarrow>
        (case fill_rows dis k' rows of (rows', k'') \<Rightarrow> (row' # rows', k'')))"

definition add_layer ::
  "(nat \<Rightarrow> real) \<Rightarrow> c_int list \<Rightarrow> nat \<Rightarrow> NeuralNetwork \<times> nat \<Rightarrow> error + NeuralNetwork \<times> nat" where
  "add_layer dis architecture i s =
     (case s of (nn, k) \<Rightarrow>
        sum_bind (vector_n 8 (architecture ! (i - 1)) 0) (\<lambda>row.
        sum_bind (vector_n 24 (architecture ! i) row) (\<lambda>mat.
        sum_bind (vector_n 8 (architecture ! i) 0) (\<lambda>bias.
          case fill_rows dis k mat of (mat', k') \<Rightarrow>
            Inr (nn\<lparr>weights := weights nn @ [mat'], biases := biases nn @ [bias]\<rparr>, k')))))"

definition NeuralNetwork_new :: "(nat \<Rightarrow> real) \<Rightarrow> c_int list \<Rightarrow> real \<Rightarrow> error + NeuralNetwork" where
  "NeuralNetwork_new dis architecture lr =
     sum_bind
       (for_loop 1 (length architecture) (add_layer dis architecture)
          (\<lparr>weights = [], biases = [], activations = [], z_values = [], learning_rate = lr\<rparr>, 0))
       (\<lambda>s. Inr (fst s))"

subsection \<open>Forward propagation\<close>

text \<open>
  The state after the call is returned with the result, also when \<^verbatim>\<open>dot_product\<close> throws:
  the object then keeps the cache as far as it was written. After undefined behaviour the
  state component carries no meaning. In \<^verbatim>\<open>dot_product(...) + biases[i][j]\<close> the dot
  product is taken first; the other order differs only when both operands fail.
\<close>

definition layer_z :: "NeuralNetwork \<Rightarrow> nat \<Rightarrow> Vector \<Rightarrow> error + Vector" where
  "layer_z nn i output =
     for_loop 0 (length (weights nn ! i))
       (\<lambda>j z.
          sum_bind (dot_product (weights nn ! i ! j) output) (\<lambda>d.
          sum_bind (at_index (biases nn) i) (\<lambda>bias.
          sum_bind (at_index bias j) (\<lambda>b. Inr (z[j := d + b])))))
       (replicate (length (weights nn ! i)) 0)"

function forward_loop :: "nat \<Rightarrow> Vector \<Rightarrow> NeuralNetwork \<Rightarrow> (error + Vector) \<times> NeuralNetwork" where
  "forward_loop i output nn =
     (if i < length (weights nn) then
        (case layer_z nn i output of
           Inl e \<Rightarrow> (Inl e, nn)
         | Inr z \<Rightarrow>
            (case (if i = length (weights nn) - 1 then softmax z
                   else Inr (apply_function z (\<lambda>x. max 0 x))) of
               Inl e \<Rightarrow> (Inl e, nn\<lparr>z_values := z_values nn @ [z]\<rparr>)
             | Inr output' \<Rightarrow>
                forward_loop (i + 1) output'
                  (nn\<lparr>z_values := z_values nn @ [z],
                      activations := activations nn @ [output']\<rparr>)))
      else (Inr output, nn))"
  by pat_completeness auto
termination
  by (relation "measure (\<lambda>(i, output, nn). length (weights nn) - i)") auto

declare forward_loop.simps [simp del]

definition forward_propagation :: "NeuralNetwork \<Rightarrow> Vector \<Rightarrow> (error + Vector) \<times> NeuralNetwork" where
  "forward_propagation nn input = forward_loop 0 input (nn\<lparr>activations := [], z_values := []\<rparr>)"

subsection \<open>Backward propagation\<close>

definition output_delta :: "Vector \<Rightarrow> Vector \<Rightarrow> error + Vector" where
  "output_delta act target =
     for_loop 0 (length act)
       (\<lambda>i delta. sum_bind (at_index target i) (\<lambda>t. Inr (delta[i := delta ! i - t])))
       act"

definition update_weight ::
  "Vector \<Rightarrow> nat \<Rightarrow> Vector \<Rightarrow> nat \<Rightarrow> nat \<Rightarrow> NeuralNetwork \<Rightarrow> error + NeuralNetwork" where
  "update_weight input layer delta i j nn =
     sum_bind (at_index delta i) (\<lambda>d.
     sum_bind (if layer = 0 then at_index input j
               else sum_bind (at_index (activations nn) (layer - 1)) (\<lambda>a. at_index a j)) (\<lambda>x.
       Inr (nn\<lparr>weights := (weights nn)[layer := (weights nn ! layer)[i :=
              (weights nn ! layer ! i)[j :=
                 weights nn ! layer ! i ! j - learning_rate nn * d * x]]]\<rparr>)))"

definition update_bias :: "nat \<Rightarrow> Vector \<Rightarrow> nat \<Rightarrow> NeuralNetwork \<Rightarrow> error + NeuralNetwork" where
  "update_bias layer delta i nn =
     sum_bind (at_index (biases nn) layer) (\<lambda>bias.
     sum_bind (at_index bias i) (\<lambda>b.
     sum_bind (at_index delta i) (\<lambda>d.
       Inr (nn\<lparr>biases := (biases nn)[layer := bias[i := b - learning_rate nn * d]]\<rparr>))))"

definition update_layer :: "Vector \<Rightarrow> nat \<Rightarrow> Vector \<Rightarrow> NeuralNetwork \<Rightarrow> error + NeuralNetwork" where
  "update_layer input layer delta nn =
     for_loop 0 (length (weights nn ! layer))
       (\<lambda>i nn1.
          sum_bind
            (for_loop 0 (length (weights nn1 ! layer ! i)) (update_weight input layer delta i) nn1)
            (update_bias layer delta i))
       nn"

definition propagate_delta :: "NeuralNetwork \<Rightarrow> nat \<Rightarrow> Vector \<Rightarrow> error + Vector" where
  "propagate_delta nn layer delta =
     sum_bind (at_index (weights nn ! layer) 0) (\<lambda>row0.
       for_loop 0 (length row0)
         (\<lambda>j new_delta.
            sum_bind
              (for_loop 0 (length (weights nn ! layer))
                 (\<lambda>i nd.
                    sum_bind (at_index delta i) (\<lambda>d.
                    sum_bind (at_index (weights nn ! layer ! i) j) (\<lambda>w.
                      Inr (nd[j := nd ! j + d * w]))))
                 new_delta)
              (\<lambda>nd.
                 sum_bind (at_index (z_values nn) (layer - 1)) (\<lambda>z.
                 sum_bind (at_index z j) (\<lambda>zj.
                   Inr (nd[j := nd ! j * (if zj > 0 then 1 else 0)])))))
         (replicate (length row0) 0))"

text \<open>
  The loop \<^verbatim>\<open>for (int layer = weights.size() - 1; layer >= 0; --layer)\<close>: the second
  argument is \<^verbatim>\<open>layer + 1\<close>, the number of iterations left.
\<close>

fun backward_loop :: "Vector \<Rightarrow> nat \<Rightarrow> Vector \<Rightarrow> NeuralNetwork \<Rightarrow> error + NeuralNetwork" where
  "backward_loop input 0 delta nn = Inr nn"
| "backward_loop input (Suc layer) delta nn =
     (case update_layer input layer delta nn of
        Inl e \<Rightarrow> Inl e
      | Inr nn1 \<Rightarrow>
         (if layer > 0 then
            (case propagate_delta nn1 layer delta of
               Inl e \<Rightarrow> Inl e
             | Inr new_delta \<Rightarrow> backward_loop input layer new_delta nn1)
          else backward_loop input layer delta nn1))"

text \<open>
  \<^verbatim>\<open>weights.size() - 1\<close> is computed in \<^verbatim>\<open>size_t\<close> and narrowed to \<^verbatim>\<open>int\<close>: the low 32
  bits, read as a signed number (\<open>-1\<close> for a network without layers).
\<close>

definition backward_propagation :: "NeuralNetwork \<Rightarrow> Vector \<Rightarrow> Vector \<Rightarrow> error + NeuralNetwork" where
  "backward_propagation nn input target =
     (if activations nn = [] then Inl UndefinedBehaviour
      else
        sum_bind (output_delta (last (activations nn)) target) (\<lambda>delta.
          backward_loop input
            (nat (sint (word_of_nat (length (weights nn)) - 1 :: c_int) + 1)) delta nn))"

subsection \<open>Prediction, evaluation, training\<close>

definition predict :: "NeuralNetwork \<Rightarrow> Vector \<Rightarrow> (error + c_int) \<times> NeuralNetwork" where
  "predict nn input =
     (case forward_propagation nn input of
        (Inl e, nn1) \<Rightarrow> (Inl e, nn1)
      | (Inr output, nn1) \<Rightarrow> (Inr (word_of_nat (max_element output)), nn1))"

function evaluate_loop ::
  "Vector list \<Rightarrow> c_int list \<Rightarrow> nat \<Rightarrow> c_int \<Rightarrow> NeuralNetwork \<Rightarrow> (error + c_int) \<times> NeuralNetwork" where
  "evaluate_loop inputs labels i correct nn =
     (if i < length inputs then
        (case predict nn (inputs ! i) of
           (Inl e, nn1) \<Rightarrow> (Inl e, nn1)
         | (Inr predicted, nn1) \<Rightarrow>
            (case at_index labels i of
               Inl e \<Rightarrow> (Inl e, nn1)
             | Inr label \<Rightarrow>
                (if predicted = label then
                   (if sint correct = 2 ^ 31 - 1 then (Inl UndefinedBehaviour, nn1)
                    else evaluate_loop inputs labels (i + 1) (correct + 1) nn1)
                 else evaluate_loop inputs labels (i + 1) correct nn1)))
      else (Inr correct, nn))"
  by pat_completeness auto
termination
  by (relation "measure (\<lambda>(inputs, labels, i, correct, nn). length inputs - i)") auto

declare evaluate_loop.simps [simp del]

definition evaluate :: "NeuralNetwork \<Rightarrow> Vector list \<Rightarrow> c_int list \<Rightarrow> (error + fp) \<times> NeuralNetwork" where
  "evaluate nn inputs labels =
     (case evaluate_loop inputs labels 0 0 nn of
        (Inl e, nn1) \<Rightarrow> (Inl e, nn1)
      | (Inr correct, nn1) \<Rightarrow>
         (Inr (fp_mult (fp_div (real_of_int (sint correct)) (real (length inputs))) 100), nn1))"

text \<open>
  The cross-entropy of one sample, subtracted term by term from the running total. It is
  reached only after \<^verbatim>\<open>backward_propagation\<close> returned, so \<open>output\<close> is a softmax
  output and the argument of the logarithm is positive.
\<close>

definition sample_loss :: "Vector \<Rightarrow> Vector \<Rightarrow> real \<Rightarrow> error + real" where
  "sample_loss target output total_loss =
     for_loop 0 (length target)
       (\<lambda>j loss. sum_bind (at_index output j) (\<lambda>out. Inr (loss - target ! j * ln (out + EPSILON))))
       total_loss"

function train_epoch ::
  "Vector list \<Rightarrow> Vector list \<Rightarrow> nat \<Rightarrow> real \<Rightarrow> NeuralNetwork \<Rightarrow> (error + real) \<times> NeuralNetwork" where
  "train_epoch inputs labels i total_loss nn =
     (if i < length inputs then
        (case forward_propagation nn (inputs ! i) of
           (Inl e, nn1) \<Rightarrow> (Inl e, nn1)
         | (Inr output, nn1) \<Rightarrow>
            (case at_index labels i of
               Inl e \<Rightarrow> (Inl e, nn1)
             | Inr target \<Rightarrow>
                (case backward_propagation nn1 (inputs ! i) target of
                   Inl e \<Rightarrow> (Inl e, nn1)
                 | Inr nn2 \<Rightarrow>
                    (case sample_loss target output total_loss of
                       Inl e \<Rightarrow> (Inl e, nn2)
                     | Inr loss \<Rightarrow> train_epoch inputs labels (i + 1) loss nn2))))
      else (Inr total_loss, nn))"
  by pat_completeness auto
termination
  by (relation "measure (\<lambda>(inputs, labels, i, total_loss, nn). length inputs - i)") auto

declare train_epoch.simps [simp del]

text \<open>
  The epochs, counted down; the result lists the mean loss printed after each epoch
  (\<^verbatim>\<open>total_loss / inputs.size()\<close>, a division by zero for an empty training set).
\<close>

fun train_epochs ::
  "Vector list \<Rightarrow> Vector list \<Rightarrow> nat \<Rightarrow> NeuralNetwork \<Rightarrow> (error + fp list) \<times> NeuralNetwork" where
  "train_epochs inputs labels 0 nn = (Inr [], nn)"
| "train_epochs inputs labels (Suc n) nn =
     (case train_epoch inputs labels 0 0 nn of
        (Inl e, nn1) \<Rightarrow> (Inl e, nn1)
      | (Inr total_loss, nn1) \<Rightarrow>
         (case train_epochs inputs labels n nn1 of
            (Inl e, nn2) \<Rightarrow> (Inl e, nn2)
          | (Inr losses, nn2) \<Rightarrow>
             (Inr (fp_div total_loss (real (length inputs)) # losses), nn2)))"

definition train ::
  "NeuralNetwork \<Rightarrow> Vector list \<Rightarrow> Vector list \<Rightarrow> c_int \<Rightarrow> (error + fp list) \<times> NeuralNetwork" where
  "train nn inputs labels epochs = train_epochs inputs labels (nat (sint epochs)) nn"

section \<open>Reference definitions for the refinement statements\<close>

subsection \<open>Softmax\<close>

text \<open>
  The softmax function as mathematics defines it, without the shift by the maximum:
  \<open>exp x\<^sub>i / \<Sum>\<^sub>k exp x\<^sub>k\<close>.
\<close>

definition softmax_math :: "Vector \<Rightarrow> Vector" where
  "softmax_math vec = map (\<lambda>x. exp x / (\<Sum>y\<leftarrow>vec. exp y)) vec"

subsection \<open>Shapes\<close>

text \<open>The entries of an architecture as sizes.\<close>

definition layer_sizes :: "c_int list \<Rightarrow> nat list" where
  "layer_sizes architecture = map (\<lambda>a. nat (sint a)) architecture"

text \<open>
  The shape invariant of the data model, for the layer sizes \<open>sizes\<close> (input size first):
  matrix \<open>i\<close> has \<open>sizes ! (i + 1)\<close> rows of \<open>sizes ! i\<close> entries, bias vector \<open>i\<close> has
  \<open>sizes ! (i + 1)\<close> entries.
\<close>

definition shape_invariant :: "nat list \<Rightarrow> NeuralNetwork \<Rightarrow> bool" where
  "shape_invariant sizes nn \<longleftrightarrow>
     length (weights nn) = length sizes - 1 \<and>
     length (biases nn) = length sizes - 1 \<and>
     (\<forall>i < length sizes - 1.
        length (weights nn ! i) = sizes ! (i + 1) \<and>
        (\<forall>row \<in> set (weights nn ! i). length row = sizes ! i) \<and>
        length (biases nn ! i) = sizes ! (i + 1))"

text \<open>The row lengths of every matrix and the length of every bias vector.\<close>

definition parameter_shape :: "NeuralNetwork \<Rightarrow> nat list list \<times> nat list" where
  "parameter_shape nn = (map (map length) (weights nn), map length (biases nn))"

text \<open>
  A network and an input that fit: the shape invariant holds for the sizes read off the
  input and the matrices, there is at least one layer, and the output layer is not empty.
\<close>

definition well_dimensioned :: "NeuralNetwork \<Rightarrow> Vector \<Rightarrow> bool" where
  "well_dimensioned nn input \<longleftrightarrow>
     weights nn \<noteq> [] \<and> last (weights nn) \<noteq> [] \<and>
     shape_invariant (length input # map length (weights nn)) nn"

text \<open>The cache describes one forward pass through the current weight matrices.\<close>

definition cache_well_formed :: "NeuralNetwork \<Rightarrow> bool" where
  "cache_well_formed nn \<longleftrightarrow>
     length (z_values nn) = length (weights nn) \<and>
     length (activations nn) = length (weights nn) \<and>
     (\<forall>i < length (weights nn).
        length (z_values nn ! i) = length (weights nn ! i) \<and>
        length (activations nn ! i) = length (weights nn ! i))"

subsection \<open>Forward propagation\<close>

text \<open>
  Forward propagation as the specification words it, on the list of (matrix, bias) pairs:
  the list of (pre-activation, activation) pairs, layer by layer.
\<close>

fun forward_spec :: "(Matrix \<times> Vector) list \<Rightarrow> Vector \<Rightarrow> (Vector \<times> Vector) list" where
  "forward_spec [] x = []"
| "forward_spec ((W, b) # layers) x =
     (let z = map (\<lambda>j. (\<Sum>k<length x. W ! j ! k * x ! k) + b ! j) [0..<length W];
          a = (if layers = [] then softmax_math z else map relu z)
      in (z, a) # forward_spec layers a)"

subsection \<open>Backward propagation\<close>

text \<open>
  One layer of the backward pass as the specification words it: every weight is decremented
  by \<open>lr * \<delta>\<^sub>i * prev\<^sub>j\<close>, every bias by \<open>lr * \<delta>\<^sub>i\<close>, and the error passed to the preceding
  layer is \<open>\<Sum>\<^sub>i \<delta>\<^sub>i * W\<^sub>i\<^sub>j\<close> times the derivative of ReLU at that layer's pre-activation.
\<close>

definition updated_weights :: "real \<Rightarrow> Vector \<Rightarrow> Vector \<Rightarrow> Matrix \<Rightarrow> Matrix" where
  "updated_weights lr \<delta> prev W =
     map (\<lambda>i. map (\<lambda>j. W ! i ! j - lr * \<delta> ! i * prev ! j) [0..<length (W ! i)]) [0..<length W]"

definition updated_bias :: "real \<Rightarrow> Vector \<Rightarrow> Vector \<Rightarrow> Vector" where
  "updated_bias lr \<delta> b = map (\<lambda>i. b ! i - lr * \<delta> ! i) [0..<length b]"

definition propagated_delta :: "Vector \<Rightarrow> Matrix \<Rightarrow> Vector \<Rightarrow> Vector" where
  "propagated_delta \<delta> W z =
     map (\<lambda>j. (\<Sum>i<length W. \<delta> ! i * W ! i ! j) * relu_derivative (z ! j)) [0..<length (W ! 0)]"

text \<open>
  One gradient-descent step on a sample, over the layers \<open>l - 1, \<dots>, 0\<close>: the error of a
  layer is propagated to the preceding layer through the matrix the forward pass used, that
  is, the matrix of the layer before this step changes it. This is the gradient of the
  cross-entropy loss with respect to every weight and bias at the current parameters.
\<close>

fun backward_spec ::
  "real \<Rightarrow> Vector \<Rightarrow> Vector list \<Rightarrow> Vector list \<Rightarrow> nat \<Rightarrow> Vector \<Rightarrow> Matrix list \<times> Vector list \<Rightarrow>
   Matrix list \<times> Vector list" where
  "backward_spec lr input acts zs 0 \<delta> (Ws, bs) = (Ws, bs)"
| "backward_spec lr input acts zs (Suc l) \<delta> (Ws, bs) =
     (let prev = (if l = 0 then input else acts ! (l - 1));
          W' = updated_weights lr \<delta> prev (Ws ! l);
          b' = updated_bias lr \<delta> (bs ! l);
          \<delta>' = (if l = 0 then \<delta> else propagated_delta \<delta> (Ws ! l) (zs ! (l - 1)))
      in backward_spec lr input acts zs l \<delta>' (Ws[l := W'], bs[l := b']))"

text \<open>
  The same pass in the order in which \<^verbatim>\<open>backward_propagation\<close> runs it: the matrix of a
  layer is overwritten first, and the error is then propagated through the overwritten
  matrix \<open>W'\<close>. It differs from \<open>backward_spec\<close> in that one argument.
\<close>

fun backward_in_place ::
  "real \<Rightarrow> Vector \<Rightarrow> Vector list \<Rightarrow> Vector list \<Rightarrow> nat \<Rightarrow> Vector \<Rightarrow> Matrix list \<times> Vector list \<Rightarrow>
   Matrix list \<times> Vector list" where
  "backward_in_place lr input acts zs 0 \<delta> (Ws, bs) = (Ws, bs)"
| "backward_in_place lr input acts zs (Suc l) \<delta> (Ws, bs) =
     (let prev = (if l = 0 then input else acts ! (l - 1));
          W' = updated_weights lr \<delta> prev (Ws ! l);
          b' = updated_bias lr \<delta> (bs ! l);
          \<delta>' = (if l = 0 then \<delta> else propagated_delta \<delta> W' (zs ! (l - 1)))
      in backward_in_place lr input acts zs l \<delta>' (Ws[l := W'], bs[l := b']))"

subsection \<open>Evaluation\<close>

text \<open>
  The number of inputs from index \<open>i\<close> on whose predicted class is their label.
\<close>

definition correct_count :: "NeuralNetwork \<Rightarrow> Vector list \<Rightarrow> c_int list \<Rightarrow> nat \<Rightarrow> nat" where
  "correct_count nn inputs labels i =
     length (filter (\<lambda>k. fst (predict nn (inputs ! k)) = Inr (labels ! k)) [i..<length inputs])"

subsection \<open>Loop invariants\<close>

text \<open>The invariant of the constructor's loop before iteration \<open>i\<close>.\<close>

definition built :: "c_int list \<Rightarrow> real \<Rightarrow> nat \<Rightarrow> NeuralNetwork \<times> nat \<Rightarrow> bool" where
  "built architecture lr i s \<longleftrightarrow>
     length (weights (fst s)) = i - 1 \<and> length (biases (fst s)) = i - 1 \<and>
     activations (fst s) = [] \<and> z_values (fst s) = [] \<and> learning_rate (fst s) = lr \<and>
     (\<forall>l < i - 1.
        length (weights (fst s) ! l) = layer_sizes architecture ! (l + 1) \<and>
        (\<forall>row \<in> set (weights (fst s) ! l). length row = layer_sizes architecture ! l) \<and>
        length (biases (fst s) ! l) = layer_sizes architecture ! (l + 1))"

text \<open>
  What the backward loop needs of the layers below \<open>l\<close>: a full cache, no empty matrix,
  rows as long as the previous activation, a bias entry per row.
\<close>

definition backward_ready :: "Vector \<Rightarrow> nat \<Rightarrow> NeuralNetwork \<Rightarrow> bool" where
  "backward_ready input l t \<longleftrightarrow>
     l \<le> length (weights t) \<and> length (biases t) = length (weights t) \<and>
     length (activations t) = length (weights t) \<and> length (z_values t) = length (weights t) \<and>
     (\<forall>k<l.
        weights t ! k \<noteq> [] \<and> length (biases t ! k) = length (weights t ! k) \<and>
        (\<forall>row \<in> set (weights t ! k).
           length row = (if k = 0 then length input else length (weights t ! (k - 1)))) \<and>
        (0 < k \<longrightarrow>
           length (activations t ! (k - 1)) = length (weights t ! (k - 1)) \<and>
           length (z_values t ! (k - 1)) = length (weights t ! (k - 1))))"

subsection \<open>Concrete data\<close>

text \<open>A generator that always draws zero, for concrete runs.\<close>

definition zero_dis :: "nat \<Rightarrow> real" where
  "zero_dis k = 0"

text \<open>A network of one layer with one neuron, with a stale cache, for concrete runs.\<close>

definition unit_network :: NeuralNetwork where
  "unit_network = \<lparr>weights = [[[2]]], biases = [[0]], activations = [[7], [8, 9]], z_values = [],
     learning_rate = 1\<rparr>"

text \<open>A network with a hidden layer of two neurons and two outputs, for concrete runs.\<close>

definition two_layer_network :: NeuralNetwork where
  "two_layer_network =
     \<lparr>weights = [[[1], [- 1]], [[1, 1], [0, 1]]], biases = [[0, 0], [0, 0]],
      activations = [], z_values = [], learning_rate = 1\<rparr>"

text \<open>
  A network as the constructor returns it for the architecture \<open>[1, 2, 2]\<close> when the first
  two numbers drawn are \<open>1/4\<close> and the others \<open>0\<close>, and its state after forward propagation
  of the input \<open>[1]\<close>.
\<close>

definition quarter_dis :: "nat \<Rightarrow> real" where
  "quarter_dis k = (if k < 2 then 1 / 4 else 0)"

definition order_network :: NeuralNetwork where
  "order_network =
     \<lparr>weights = [[[1 / 4], [1 / 4]], [[0, 0], [0, 0]]], biases = [[0, 0], [0, 0]],
      activations = [], z_values = [], learning_rate = 1\<rparr>"

definition order_forwarded :: NeuralNetwork where
  "order_forwarded =
     order_network\<lparr>activations := [[1 / 4, 1 / 4], [1 / 2, 1 / 2]],
                    z_values := [[1 / 4, 1 / 4], [0, 0]]\<rparr>"

section \<open>Loops and sequencing\<close>

lemma sum_bind_Inl [simp]: "sum_bind (Inl e) f = Inl e"
  by (simp add: sum_bind_def)

lemma sum_bind_Inr [simp]: "sum_bind (Inr v) f = f v"
  by (simp add: sum_bind_def)

lemma sum_bind_eq_Inr: "sum_bind r f = Inr y \<longleftrightarrow> (\<exists>v. r = Inr v \<and> f v = Inr y)"
  by (cases r) simp_all

lemma at_index_in [simp]: "i < length xs \<Longrightarrow> at_index xs i = Inr (xs ! i)"
  by (simp add: at_index_def)

lemma at_index_out [simp]: "\<not> i < length xs \<Longrightarrow> at_index xs i = Inl UndefinedBehaviour"
  by (simp add: at_index_def)

lemma at_index_eq_Inr: "at_index xs i = Inr v \<longleftrightarrow> i < length xs \<and> v = xs ! i"
  by (auto simp: at_index_def)

lemma fold_bind_Inl: "fold (\<lambda>k r. sum_bind r (body k)) ks (Inl e) = Inl e"
  by (induction ks) simp_all

lemma for_loop_done [simp]: "hi \<le> lo \<Longrightarrow> for_loop lo hi body s = Inr s"
  by (simp add: for_loop_def)

lemma for_loop_first: "lo < hi \<Longrightarrow> for_loop lo hi body s = sum_bind (body lo s) (for_loop (Suc lo) hi body)"
  by (cases "body lo s") (simp_all add: for_loop_def upt_conv_Cons fold_bind_Inl)

lemma for_loop_last: "lo \<le> hi \<Longrightarrow> for_loop lo (Suc hi) body s = sum_bind (for_loop lo hi body s) (body hi)"
  by (simp add: for_loop_def)

text \<open>Total correctness of a counted loop from an invariant.\<close>

lemma for_loop_total:
  assumes "lo \<le> hi" and "I lo s"
    and "\<And>k t. lo \<le> k \<Longrightarrow> k < hi \<Longrightarrow> I k t \<Longrightarrow> \<exists>t'. body k t = Inr t' \<and> I (Suc k) t'"
  shows "\<exists>t. for_loop lo hi body s = Inr t \<and> I hi t"
  using assms(1,3)
proof (induction hi)
  case 0
  with assms(2) show ?case by simp
next
  case (Suc hi)
  show ?case
  proof (cases "lo = Suc hi")
    case True
    with assms(2) show ?thesis by simp
  next
    case False
    with Suc.prems(1) have le: "lo \<le> hi" by simp
    from Suc.IH[OF le] Suc.prems(2) obtain t where t: "for_loop lo hi body s = Inr t" "I hi t"
      by (metis less_Suc_eq)
    from Suc.prems(2)[OF le _ t(2)] obtain t' where "body hi t = Inr t'" "I (Suc hi) t'" by auto
    with t le show ?thesis by (simp add: for_loop_last)
  qed
qed

text \<open>Partial correctness: what a loop that returned has established.\<close>

lemma for_loop_partial:
  assumes "for_loop lo hi body s = Inr t" and "lo \<le> hi" and "I lo s"
    and "\<And>k u u'. lo \<le> k \<Longrightarrow> k < hi \<Longrightarrow> I k u \<Longrightarrow> body k u = Inr u' \<Longrightarrow> I (Suc k) u'"
  shows "I hi t"
  using assms(1,2,4)
proof (induction hi arbitrary: t)
  case 0
  with assms(3) show ?case by simp
next
  case (Suc hi)
  show ?case
  proof (cases "lo = Suc hi")
    case True
    with assms(3) Suc.prems(1) show ?thesis by simp
  next
    case False
    with Suc.prems(2) have le: "lo \<le> hi" by simp
    from Suc.prems(1) le obtain u where u: "for_loop lo hi body s = Inr u" "body hi u = Inr t"
      by (auto simp: for_loop_last sum_bind_eq_Inr)
    have "I hi u" using Suc.IH[OF u(1) le] Suc.prems(3) by (metis less_Suc_eq)
    from Suc.prems(3)[OF le _ this u(2)] show ?thesis by simp
  qed
qed

text \<open>A loop whose iterations can only fail with \<open>e\<close>, and one of which always fails.\<close>

lemma for_loop_fails:
  assumes "lo \<le> k" and "k < hi" and "\<And>s. body k s = Inl e"
    and "\<And>j s. lo \<le> j \<Longrightarrow> j < k \<Longrightarrow> body j s = Inl e \<or> (\<exists>s'. body j s = Inr s')"
  shows "for_loop lo hi body s = Inl e"
  using assms(1,4)
proof (induction "k - lo" arbitrary: lo s)
  case 0
  then have "lo = k" by simp
  with assms(2,3) show ?case by (simp add: for_loop_first)
next
  case (Suc n)
  then have lt: "lo < k" by simp
  with assms(2) have "lo < hi" by simp
  then have step: "for_loop lo hi body s = sum_bind (body lo s) (for_loop (Suc lo) hi body)"
    by (rule for_loop_first)
  from Suc.prems(2)[of lo s] lt consider "body lo s = Inl e" | s' where "body lo s = Inr s'"
    by auto
  then show ?case
  proof cases
    case 1
    with step show ?thesis by simp
  next
    case 2
    have "for_loop (Suc lo) hi body s' = Inl e"
      using Suc.hyps(2) lt Suc.prems(2) by (intro Suc.hyps(1)) auto
    with step 2 show ?thesis by simp
  qed
qed

section \<open>Softmax\<close>

text \<open>
  Over the reals the shift by the maximum cancels, and the softmax of the code is the
  quotient \<open>exp x\<^sub>i / \<Sum>\<^sub>k exp x\<^sub>k\<close>. What the shift is for, the overflow of \<^verbatim>\<open>std::exp\<close> in
  \<^verbatim>\<open>double\<close>, and the rounding of the sum are outside this model.
\<close>

lemma fold_plus_sum_list: "fold (\<lambda>v s. s + v) xs (a::real) = a + sum_list xs"
  by (induction xs arbitrary: a) simp_all

lemma sum_list_exp_nonneg: "0 \<le> (\<Sum>y\<leftarrow>vec. exp (y::real))"
  by (induction vec) simp_all

lemma sum_list_exp_pos: "vec \<noteq> [] \<Longrightarrow> 0 < (\<Sum>y\<leftarrow>vec. exp (y::real))"
  using sum_list_exp_nonneg[of "tl vec"] by (cases vec) (simp_all add: add_pos_nonneg)

lemma sum_list_div_const: "(\<Sum>x\<leftarrow>xs. f x / c) = (\<Sum>x\<leftarrow>xs. f x) / (c::real)"
  by (induction xs) (simp_all add: add_divide_distrib)

lemma softmax_eq_math: "vec \<noteq> [] \<Longrightarrow> softmax vec = Inr (softmax_math vec)"
proof -
  assume ne: "vec \<noteq> []"
  define m where "m = vec ! max_element vec"
  have pos: "0 < (\<Sum>y\<leftarrow>vec. exp y)" by (rule sum_list_exp_pos[OF ne])
  have "exp (x - m) / (\<Sum>y\<leftarrow>vec. exp (y - m)) = exp x / (\<Sum>y\<leftarrow>vec. exp y)" for x
    using pos by (simp add: exp_diff sum_list_div_const)
  thus ?thesis
    using ne by (simp add: softmax_def softmax_math_def Let_def fold_plus_sum_list m_def)
qed

lemma Activation_softmax_eq: "Activation_softmax vec = softmax vec"
  by (simp add: softmax_def Activation_softmax_def)

lemma length_softmax_math: "length (softmax_math vec) = length vec"
  by (simp add: softmax_math_def)

lemma sum_list_softmax_math: "vec \<noteq> [] \<Longrightarrow> sum_list (softmax_math vec) = 1"
proof -
  assume ne: "vec \<noteq> []"
  let ?S = "\<Sum>y\<leftarrow>vec. exp y"
  have "sum_list (softmax_math vec) = (\<Sum>x\<leftarrow>vec. exp x) / ?S"
    unfolding softmax_math_def by (simp add: o_def sum_list_div_const)
  thus ?thesis using sum_list_exp_pos[OF ne] by simp
qed

lemma exp_le_sum_list_exp: "x \<in> set vec \<Longrightarrow> exp (x::real) \<le> (\<Sum>y\<leftarrow>vec. exp y)"
  using sum_list_exp_nonneg by (induction vec) (auto intro: add_increasing add_increasing2)

lemma softmax_math_range: "y \<in> set (softmax_math vec) \<Longrightarrow> 0 \<le> y \<and> y \<le> 1"
proof -
  assume "y \<in> set (softmax_math vec)"
  then obtain x where x: "x \<in> set vec" and y: "y = exp x / (\<Sum>y\<leftarrow>vec. exp y)"
    by (auto simp: softmax_math_def)
  from x have ne: "vec \<noteq> []" by auto
  show ?thesis using sum_list_exp_pos[OF ne] exp_le_sum_list_exp[OF x] by (simp add: y)
qed

lemma softmax_math_shift: "softmax_math (map (\<lambda>x. x + c) vec) = softmax_math vec"
proof -
  have "(\<Sum>y\<leftarrow>vec. exp (y + c)) = (\<Sum>y\<leftarrow>vec. exp y) * exp c"
    by (induction vec) (simp_all add: exp_add distrib_right)
  thus ?thesis by (simp add: softmax_math_def o_def exp_add)
qed

section \<open>Forward propagation: frame and cache\<close>

lemma forward_loop_frame:
  "weights (snd (forward_loop i output nn)) = weights nn \<and>
   biases (snd (forward_loop i output nn)) = biases nn \<and>
   learning_rate (snd (forward_loop i output nn)) = learning_rate nn"
proof (induction i "output" nn rule: forward_loop.induct)
  case (1 i out nn)
  show ?case
  proof (cases "i < length (weights nn)")
    case False
    then show ?thesis by (simp add: forward_loop.simps[of i out nn])
  next
    case True
    show ?thesis
    proof (cases "layer_z nn i out")
      case (Inl e)
      with True show ?thesis by (simp add: forward_loop.simps[of i out nn])
    next
      case (Inr z)
      show ?thesis
      proof (cases "if i = length (weights nn) - 1 then softmax z
                    else Inr (apply_function z (\<lambda>x. max 0 x))")
        case (Inl e)
        with True Inr show ?thesis by (simp add: forward_loop.simps[of i out nn])
      next
        case act: (Inr output')
        from "1.IH"[OF True Inr act] True Inr act show ?thesis
          by (simp add: forward_loop.simps[of i out nn])
      qed
    qed
  qed
qed

text \<open>
  Claim C9. Forward propagation writes the cache only: the weight matrices, the bias
  vectors and the learning rate after the call are those before it, for every network state
  and every input, whether the call returns or \<^verbatim>\<open>dot_product\<close> throws.
\<close>

theorem forward_propagation_frame:
  "weights (snd (forward_propagation nn input)) = weights nn \<and>
   biases (snd (forward_propagation nn input)) = biases nn \<and>
   learning_rate (snd (forward_propagation nn input)) = learning_rate nn"
  using forward_loop_frame[of 0 input "nn\<lparr>activations := [], z_values := []\<rparr>"]
  by (simp add: forward_propagation_def)

lemma forward_loop_stop:
  "\<not> i < length (weights nn) \<Longrightarrow> forward_loop i out nn = (Inr out, nn)"
  by (simp add: forward_loop.simps[of i out nn])

lemma forward_loop_z_fails:
  "i < length (weights nn) \<Longrightarrow> layer_z nn i out = Inl e \<Longrightarrow> forward_loop i out nn = (Inl e, nn)"
  by (simp add: forward_loop.simps[of i out nn])

lemma forward_loop_act_fails:
  "i < length (weights nn) \<Longrightarrow> layer_z nn i out = Inr z \<Longrightarrow>
   (if i = length (weights nn) - 1 then softmax z else Inr (apply_function z (\<lambda>x. max 0 x))) = Inl e \<Longrightarrow>
   forward_loop i out nn = (Inl e, nn\<lparr>z_values := z_values nn @ [z]\<rparr>)"
  by (simp add: forward_loop.simps[of i out nn])

lemma forward_loop_step:
  "i < length (weights nn) \<Longrightarrow> layer_z nn i out = Inr z \<Longrightarrow>
   (if i = length (weights nn) - 1 then softmax z else Inr (apply_function z (\<lambda>x. max 0 x))) = Inr out' \<Longrightarrow>
   forward_loop i out nn =
     forward_loop (i + 1) out' (nn\<lparr>z_values := z_values nn @ [z], activations := activations nn @ [out']\<rparr>)"
  by (simp add: forward_loop.simps[of i out nn])

lemma length_layer_z:
  assumes "layer_z nn i out = Inr z"
  shows "length z = length (weights nn ! i)"
  using assms unfolding layer_z_def
  by (rule for_loop_partial[where I = "\<lambda>k z. length z = length (weights nn ! i)"])
     (auto simp: sum_bind_eq_Inr)

lemma length_softmax: "softmax z = Inr a \<Longrightarrow> length a = length z"
  by (auto simp: softmax_def Let_def split: if_splits)

lemma length_activation:
  "(if c then softmax z else Inr (apply_function z f)) = Inr a \<Longrightarrow> length a = length z"
  by (auto simp: length_softmax apply_function_def split: if_splits)

lemma forward_loop_cache:
  assumes "fst (forward_loop i out nn) = Inr r"
    and "i \<le> length (weights nn)"
    and "length (z_values nn) = i" and "length (activations nn) = i"
    and "\<forall>k<i. length (z_values nn ! k) = length (weights nn ! k) \<and>
               length (activations nn ! k) = length (weights nn ! k)"
  shows "cache_well_formed (snd (forward_loop i out nn))"
  using assms
proof (induction i out nn arbitrary: r rule: forward_loop.induct)
  case (1 i out nn)
  show ?case
  proof (cases "i < length (weights nn)")
    case False
    with "1.prems" show ?thesis
      by (simp add: forward_loop_stop cache_well_formed_def)
  next
    case True
    show ?thesis
    proof (cases "layer_z nn i out")
      case (Inl e)
      with True "1.prems"(1) show ?thesis by (simp add: forward_loop_z_fails)
    next
      case (Inr z)
      show ?thesis
      proof (cases "if i = length (weights nn) - 1 then softmax z
                    else Inr (apply_function z (\<lambda>x. max 0 x))")
        case (Inl e)
        with True Inr "1.prems"(1) show ?thesis by (simp add: forward_loop_act_fails)
      next
        case act: (Inr out')
        let ?nn = "nn\<lparr>z_values := z_values nn @ [z], activations := activations nn @ [out']\<rparr>"
        have step: "forward_loop i out nn = forward_loop (i + 1) out' ?nn"
          by (rule forward_loop_step[OF True Inr act])
        have lz: "length z = length (weights nn ! i)" by (rule length_layer_z[OF Inr])
        have la: "length out' = length (weights nn ! i)"
          using length_activation[OF act] lz by simp
        have "cache_well_formed (snd (forward_loop (i + 1) out' ?nn))"
        proof (rule "1.IH"[OF True Inr act])
          show "fst (forward_loop (i + 1) out' ?nn) = Inr r" using "1.prems"(1) step by simp
          show "i + 1 \<le> length (weights ?nn)" using True by simp
          show "length (z_values ?nn) = i + 1" using "1.prems"(3) by simp
          show "length (activations ?nn) = i + 1" using "1.prems"(4) by simp
          show "\<forall>k<i + 1. length (z_values ?nn ! k) = length (weights ?nn ! k) \<and>
                  length (activations ?nn ! k) = length (weights ?nn ! k)"
            using "1.prems"(3,4,5) lz la by (auto simp: nth_append less_Suc_eq)
        qed
        with step show ?thesis by simp
      qed
    qed
  qed
qed

text \<open>
  Claim C10. After a forward propagation that returned, the cache holds one pre-activation
  vector and one activation vector per weight matrix, each as long as that matrix has rows,
  whatever the cache held before the call.
\<close>

theorem forward_propagation_cache:
  "fst (forward_propagation nn input) = Inr r \<Longrightarrow>
   cache_well_formed (snd (forward_propagation nn input))"
  unfolding forward_propagation_def
  by (rule forward_loop_cache) simp_all

lemma forward_unit_network:
  "forward_propagation unit_network [1] =
     (Inr [1], unit_network\<lparr>activations := [[1]], z_values := [[2]]\<rparr>)"
  by (simp add: forward_propagation_def unit_network_def forward_loop.simps[of 0]
      forward_loop.simps[of "Suc 0"] layer_z_def for_loop_def dot_product_def softmax_def max_element_def)

theorem forward_propagation_cache_witness:
  "fst (forward_propagation unit_network [1]) = Inr [1] \<and>
   cache_well_formed (snd (forward_propagation unit_network [1])) \<and>
   z_values (snd (forward_propagation unit_network [1])) = [[2]] \<and>
   activations (snd (forward_propagation unit_network [1])) = [[1]]"
  using forward_propagation_cache[of unit_network "[1]" "[1]"]
  by (simp add: forward_unit_network)

section \<open>Construction\<close>

lemma max_size_le: "max_size eb \<le> 2 ^ 63 - 1"
  unfolding max_size_def by (rule div_le_dividend)

lemma vector_n_negative: "sint n < 0 \<Longrightarrow> vector_n eb n v = Inl LengthError"
proof -
  assume neg: "sint n < 0"
  have "- (2 ^ 31) \<le> sint n" using sint_ge[of n] by simp
  with neg have "2 ^ 63 \<le> size_t_of_int n" by (simp add: size_t_of_int_def nat_le_iff)
  with max_size_le[of eb] show ?thesis by (simp add: vector_n_def)
qed

lemma vector_n_nonnegative:
  assumes "0 \<le> sint n" and "eb = 8 \<or> eb = 24"
  shows "vector_n eb n v = Inr (replicate (nat (sint n)) v)"
proof -
  have "sint n < 2 ^ 31" using sint_lt[of n] by simp
  then have "nat (sint n) < 2 ^ 31" using assms(1) by (simp add: nat_less_iff)
  moreover have "(2::nat) ^ 31 \<le> max_size eb" using assms(2) by (auto simp: max_size_def)
  ultimately show ?thesis using assms(1) by (simp add: vector_n_def size_t_of_int_def)
qed

lemma fill_row_shape: "fill_row dis k row = (row', k') \<Longrightarrow> length row' = length row"
  by (induction row arbitrary: k row' k') (auto split: prod.splits)

lemma fill_rows_shape: "fill_rows dis k m = (m', k') \<Longrightarrow> map length m' = map length m"
  by (induction m arbitrary: k m' k') (auto split: prod.splits dest: fill_row_shape)

lemma fill_rows_length: "fill_rows dis k m = (m', k') \<Longrightarrow> length m' = length m"
  using fill_rows_shape[of dis k m m' k'] by (metis length_map)

lemma fill_rows_row_length:
  assumes "fill_rows dis k m = (m', k')" and "\<forall>row \<in> set m. length row = c" and "row' \<in> set m'"
  shows "length row' = c"
proof -
  have "length row' \<in> set (map length m')" using assms(3) by simp
  then have "length row' \<in> set (map length m)" by (simp only: fill_rows_shape[OF assms(1)])
  with assms(2) show ?thesis by auto
qed

lemma add_layer_negative:
  "sint (architecture ! (i - 1)) < 0 \<or> sint (architecture ! i) < 0 \<Longrightarrow>
   add_layer dis architecture i s = Inl LengthError"
  by (cases s; cases "sint (architecture ! (i - 1)) < 0")
     (auto simp: add_layer_def vector_n_negative vector_n_nonnegative)

lemma add_layer_nonnegative:
  assumes "0 \<le> sint (architecture ! (i - 1))" and "0 \<le> sint (architecture ! i)"
  shows "\<exists>mat k'. add_layer dis architecture i (nn, k) =
           Inr (nn\<lparr>weights := weights nn @ [mat],
                    biases := biases nn @ [replicate (nat (sint (architecture ! i))) 0]\<rparr>, k') \<and>
           length mat = nat (sint (architecture ! i)) \<and>
           (\<forall>row \<in> set mat. length row = nat (sint (architecture ! (i - 1))))"
proof -
  let ?m = "replicate (nat (sint (architecture ! i))) (replicate (nat (sint (architecture ! (i - 1)))) (0::real))"
  obtain mat k' where f: "fill_rows dis k ?m = (mat, k')" by (cases "fill_rows dis k ?m")
  have "length mat = nat (sint (architecture ! i))"
    using fill_rows_length[OF f] by simp
  moreover have "\<forall>row \<in> set mat. length row = nat (sint (architecture ! (i - 1)))"
    using fill_rows_row_length[OF f] by simp
  moreover have "add_layer dis architecture i (nn, k) =
           Inr (nn\<lparr>weights := weights nn @ [mat],
                    biases := biases nn @ [replicate (nat (sint (architecture ! i))) 0]\<rparr>, k')"
    using assms f by (simp add: add_layer_def vector_n_nonnegative)
  ultimately show ?thesis by blast
qed

lemma add_layer_cases:
  "add_layer dis architecture i s = Inl LengthError \<or> (\<exists>s'. add_layer dis architecture i s = Inr s')"
proof (cases "0 \<le> sint (architecture ! (i - 1)) \<and> 0 \<le> sint (architecture ! i)")
  case True
  then show ?thesis using add_layer_nonnegative[of architecture i dis "fst s" "snd s"] by auto
next
  case False
  then show ?thesis using add_layer_negative[of architecture i dis s] by auto
qed

lemma built_step:
  assumes "1 \<le> i" and "i < length architecture" and "built architecture lr i s"
    and "0 \<le> sint (architecture ! (i - 1))" and "0 \<le> sint (architecture ! i)"
  shows "\<exists>s'. add_layer dis architecture i s = Inr s' \<and> built architecture lr (Suc i) s'"
proof -
  obtain nn k where s: "s = (nn, k)" by (cases s)
  from add_layer_nonnegative[OF assms(4,5), of dis nn k] obtain mat k' where
    a: "add_layer dis architecture i (nn, k) =
          Inr (nn\<lparr>weights := weights nn @ [mat],
                   biases := biases nn @ [replicate (nat (sint (architecture ! i))) 0]\<rparr>, k')"
    and m: "length mat = nat (sint (architecture ! i))"
      "\<forall>row \<in> set mat. length row = nat (sint (architecture ! (i - 1)))"
    by blast
  from assms(1,2) have sz: "layer_sizes architecture ! i = nat (sint (architecture ! i))"
      "layer_sizes architecture ! (i - 1) = nat (sint (architecture ! (i - 1)))"
    by (simp_all add: layer_sizes_def)
  have split: "l < i - 1 \<or> (l = i - 1 \<and> l + 1 = i)" if "l < i" for l
    using that assms(1) by arith
  have "built architecture lr (Suc i)
          (nn\<lparr>weights := weights nn @ [mat],
               biases := biases nn @ [replicate (nat (sint (architecture ! i))) 0]\<rparr>, k')"
    using assms(1,3) m sz unfolding built_def s
    by (auto simp: nth_append dest!: split)
  with a s show ?thesis by simp
qed

lemma NeuralNetwork_new_short:
  "length architecture < 2 \<Longrightarrow>
   NeuralNetwork_new dis architecture lr =
     Inr \<lparr>weights = [], biases = [], activations = [], z_values = [], learning_rate = lr\<rparr>"
  by (simp add: NeuralNetwork_new_def)

lemma NeuralNetwork_new_nonnegative:
  assumes "\<forall>a \<in> set architecture. 0 \<le> sint a"
  shows "\<exists>nn. NeuralNetwork_new dis architecture lr = Inr nn \<and>
              shape_invariant (layer_sizes architecture) nn \<and>
              activations nn = [] \<and> z_values nn = [] \<and> learning_rate nn = lr"
proof (cases "length architecture < 2")
  case True
  then show ?thesis
    by (auto simp: NeuralNetwork_new_short shape_invariant_def layer_sizes_def)
next
  case False
  let ?s0 = "(\<lparr>weights = [], biases = [], activations = [], z_values = [], learning_rate = lr\<rparr>, 0::nat)"
  have "\<exists>t. for_loop 1 (length architecture) (add_layer dis architecture) ?s0 = Inr t \<and>
            built architecture lr (length architecture) t"
  proof (rule for_loop_total)
    show "1 \<le> length architecture" using False by simp
    show "built architecture lr 1 ?s0" by (simp add: built_def)
    fix k t
    assume k: "1 \<le> k" "k < length architecture" and b: "built architecture lr k t"
    from k assms have "0 \<le> sint (architecture ! (k - 1))" "0 \<le> sint (architecture ! k)"
      by simp_all
    from built_step[OF k b this]
    show "\<exists>t'. add_layer dis architecture k t = Inr t' \<and> built architecture lr (Suc k) t'" .
  qed
  then obtain t where t: "for_loop 1 (length architecture) (add_layer dis architecture) ?s0 = Inr t"
    "built architecture lr (length architecture) t" by blast
  from t(2) have "shape_invariant (layer_sizes architecture) (fst t)"
    by (simp add: built_def shape_invariant_def layer_sizes_def)
  with t show ?thesis by (simp add: NeuralNetwork_new_def built_def)
qed

lemma NeuralNetwork_new_negative:
  assumes "2 \<le> length architecture" and "\<exists>a \<in> set architecture. sint a < 0"
  shows "NeuralNetwork_new dis architecture lr = Inl LengthError"
proof -
  from assms(2) obtain p where p: "p < length architecture" "sint (architecture ! p) < 0"
    by (auto simp: in_set_conv_nth)
  define k where "k = (if p = 0 then 1 else p)"
  have k: "1 \<le> k" "k < length architecture"
    "sint (architecture ! (k - 1)) < 0 \<or> sint (architecture ! k) < 0"
    using p assms(1) by (auto simp: k_def)
  have "for_loop 1 (length architecture) (add_layer dis architecture) s = Inl LengthError" for s
    using k(1,2)
  proof (rule for_loop_fails)
    show "add_layer dis architecture k s = Inl LengthError" for s
      using k(3) by (rule add_layer_negative)
    show "add_layer dis architecture j s = Inl LengthError \<or>
          (\<exists>s'. add_layer dis architecture j s = Inr s')" for j s
      by (rule add_layer_cases)
  qed
  then show ?thesis by (simp add: NeuralNetwork_new_def)
qed

text \<open>
  Claim C1, as the code has it. The constructor checks nothing. An architecture with fewer
  than two entries gives a network without layers. An architecture with at least two entries
  gives a network when no entry is negative (a zero entry gives empty matrices and vectors);
  when an entry is negative the vector constructor throws a length error, and no network is
  constructed. Invalid-argument is never raised.
\<close>

theorem construction_outcome:
  "(length architecture < 2 \<longrightarrow>
      NeuralNetwork_new dis architecture lr =
        Inr \<lparr>weights = [], biases = [], activations = [], z_values = [], learning_rate = lr\<rparr>) \<and>
   (2 \<le> length architecture \<and> (\<forall>a \<in> set architecture. 0 \<le> sint a) \<longrightarrow>
      (\<exists>nn. NeuralNetwork_new dis architecture lr = Inr nn)) \<and>
   (2 \<le> length architecture \<and> (\<exists>a \<in> set architecture. sint a < 0) \<longrightarrow>
      NeuralNetwork_new dis architecture lr = Inl LengthError)"
  using NeuralNetwork_new_short[of architecture dis lr]
    NeuralNetwork_new_nonnegative[of architecture dis lr]
    NeuralNetwork_new_negative[of architecture dis lr]
  by blast

lemma upt_1_2: "[1..<2] = [1]"
  by (simp add: upt_rec)

text \<open>
  Architectures \<open>[5]\<close> and \<open>[2, 0]\<close> are accepted, and \<open>[2, -1]\<close> fails with a length
  error rather than an invalid-argument error.
\<close>

theorem construction_counterexample:
  "NeuralNetwork_new zero_dis [5] 1 =
     Inr \<lparr>weights = [], biases = [], activations = [], z_values = [], learning_rate = 1\<rparr> \<and>
   NeuralNetwork_new zero_dis [2, 0] 1 =
     Inr \<lparr>weights = [[]], biases = [[]], activations = [], z_values = [], learning_rate = 1\<rparr> \<and>
   NeuralNetwork_new zero_dis [2, - 1] 1 = Inl LengthError"
  by (simp add: NeuralNetwork_new_def for_loop_def upt_1_2 add_layer_def vector_n_def
      size_t_of_int_def max_size_def)

theorem construction_outcome_witness:
  "NeuralNetwork_new zero_dis [5] 1 =
     Inr \<lparr>weights = [], biases = [], activations = [], z_values = [], learning_rate = 1\<rparr> \<and>
   (\<exists>nn. NeuralNetwork_new zero_dis [2, 3, 2] 1 = Inr nn) \<and>
   NeuralNetwork_new zero_dis [2, - 1] 1 = Inl LengthError"
  using construction_outcome[of "[5]" zero_dis 1]
    construction_outcome[of "[2, 3, 2]" zero_dis 1]
    construction_outcome[of "[2, - 1]" zero_dis 1]
  by simp

section \<open>Forward propagation against its specification\<close>

lemma fold_upt_sum: "fold (\<lambda>i (r::real). r + f i) [0..<n] a = a + (\<Sum>k<n. f k)"
  by (induction n) simp_all

lemma dot_product_sum:
  "length a = length b \<Longrightarrow> dot_product a b = Inr (\<Sum>k<length b. a ! k * b ! k)"
  by (simp add: dot_product_def fold_upt_sum)

lemma layer_z_total:
  assumes "i < length (biases nn)" and "length (weights nn ! i) \<le> length (biases nn ! i)"
    and "\<forall>row \<in> set (weights nn ! i). length row = length out"
  shows "layer_z nn i out =
           Inr (map (\<lambda>j. (\<Sum>k<length out. weights nn ! i ! j ! k * out ! k) + biases nn ! i ! j)
                  [0..<length (weights nn ! i)])"
proof -
  let ?n = "length (weights nn ! i)"
  let ?val = "\<lambda>j. (\<Sum>k<length out. weights nn ! i ! j ! k * out ! k) + biases nn ! i ! j"
  let ?body = "\<lambda>j z.
          sum_bind (dot_product (weights nn ! i ! j) out) (\<lambda>d.
          sum_bind (at_index (biases nn) i) (\<lambda>bias.
          sum_bind (at_index bias j) (\<lambda>b. Inr (z[j := d + b]))))"
  have "\<exists>z. for_loop 0 ?n ?body (replicate ?n 0) = Inr z \<and>
            (length z = ?n \<and> (\<forall>j<?n. z ! j = ?val j))"
  proof (rule for_loop_total[where I = "\<lambda>k z. length z = ?n \<and> (\<forall>j<k. z ! j = ?val j)"])
    fix k z
    assume k: "k < ?n" and inv: "length z = ?n \<and> (\<forall>j<k. z ! j = ?val j)"
    from k assms(3) have "length (weights nn ! i ! k) = length out" by simp
    then have "dot_product (weights nn ! i ! k) out = Inr (\<Sum>j<length out. weights nn ! i ! k ! j * out ! j)"
      by (rule dot_product_sum)
    with k assms(1,2) inv
    show "\<exists>z'. ?body k z = Inr z' \<and> (length z' = ?n \<and> (\<forall>j<Suc k. z' ! j = ?val j))"
      by (auto simp: nth_list_update less_Suc_eq)
  qed simp_all
  then obtain z where z: "for_loop 0 ?n ?body (replicate ?n 0) = Inr z"
    "length z = ?n" "\<forall>j<?n. z ! j = ?val j" by blast
  from z(2,3) have "z = map ?val [0..<?n]" by (intro nth_equalityI) simp_all
  with z(1) show ?thesis by (simp add: layer_z_def)
qed

lemma forward_loop_spec:
  assumes "i \<le> length (weights nn)" and "length (biases nn) = length (weights nn)"
    and "\<forall>k<length (weights nn). i \<le> k \<longrightarrow>
           length (biases nn ! k) = length (weights nn ! k) \<and>
           (\<forall>row \<in> set (weights nn ! k).
              length row = (if k = i then length out else length (weights nn ! (k - 1))))"
    and "i < length (weights nn) \<longrightarrow> last (weights nn) \<noteq> []"
  shows "forward_loop i out nn =
           (Inr (if i = length (weights nn) then out
                 else snd (last (forward_spec (drop i (zip (weights nn) (biases nn))) out))),
            nn\<lparr>z_values := z_values nn @ map fst (forward_spec (drop i (zip (weights nn) (biases nn))) out),
               activations := activations nn @ map snd (forward_spec (drop i (zip (weights nn) (biases nn))) out)\<rparr>)"
  using assms
proof (induction i out nn rule: forward_loop.induct)
  case (1 i out nn)
  show ?case
  proof (cases "i < length (weights nn)")
    case False
    with "1.prems"(1) show ?thesis by (simp add: forward_loop_stop)
  next
    case True
    note il = True
    define W b where "W = weights nn ! i" and "b = biases nn ! i"
    define rest where "rest = drop (Suc i) (zip (weights nn) (biases nn))"
    define z where "z = map (\<lambda>j. (\<Sum>k<length out. W ! j ! k * out ! k) + b ! j) [0..<length W]"
    define a where "a = (if rest = [] then softmax_math z else map relu z)"
    have dr: "drop i (zip (weights nn) (biases nn)) = (W, b) # rest"
      using True "1.prems"(2) by (simp add: Cons_nth_drop_Suc[symmetric] W_def b_def rest_def)
    have lastl: "rest = [] \<longleftrightarrow> i = length (weights nn) - 1"
      using True "1.prems"(2) by (auto simp: rest_def)
    have lz: "length z = length W" by (simp add: z_def)
    have la: "length a = length W" by (simp add: a_def length_softmax_math lz)
    have zl: "layer_z nn i out = Inr z"
      unfolding z_def W_def b_def using True "1.prems"(2,3) by (intro layer_z_total) simp_all
    have zne: "z \<noteq> []" if "i = length (weights nn) - 1"
    proof -
      from True have "weights nn \<noteq> []" by auto
      then have "last (weights nn) = weights nn ! (length (weights nn) - 1)"
        by (rule last_conv_nth)
      with that True "1.prems"(4) have "W \<noteq> []" by (simp add: W_def)
      with lz show ?thesis by auto
    qed
    have act: "(if i = length (weights nn) - 1 then softmax z
                else Inr (apply_function z (\<lambda>x. max 0 x))) = Inr a"
    proof (cases "i = length (weights nn) - 1")
      case True
      with zne lastl show ?thesis by (simp add: softmax_eq_math a_def)
    next
      case False
      have "apply_function z (\<lambda>x. max 0 x) = map relu z"
        by (simp add: apply_function_def relu_def)
      with False lastl show ?thesis by (simp add: a_def)
    qed
    define nn' where "nn' = nn\<lparr>z_values := z_values nn @ [z], activations := activations nn @ [a]\<rparr>"
    have nn': "weights nn' = weights nn" "biases nn' = biases nn"
      "z_values nn' = z_values nn @ [z]" "activations nn' = activations nn @ [a]"
      by (simp_all add: nn'_def)
    have step: "forward_loop i out nn = forward_loop (i + 1) a nn'"
      unfolding nn'_def by (rule forward_loop_step[OF True zl act])
    have ih: "forward_loop (i + 1) a nn' =
           (Inr (if i + 1 = length (weights nn') then a
                 else snd (last (forward_spec (drop (i + 1) (zip (weights nn') (biases nn'))) a))),
            nn'\<lparr>z_values := z_values nn' @ map fst (forward_spec (drop (i + 1) (zip (weights nn') (biases nn'))) a),
               activations := activations nn' @ map snd (forward_spec (drop (i + 1) (zip (weights nn') (biases nn'))) a)\<rparr>)"
      unfolding nn'_def
    proof (rule "1.IH"[OF True zl act])
      show "i + 1 \<le> length (weights (nn\<lparr>z_values := z_values nn @ [z], activations := activations nn @ [a]\<rparr>))"
        using True by simp
      show "length (biases (nn\<lparr>z_values := z_values nn @ [z], activations := activations nn @ [a]\<rparr>)) =
            length (weights (nn\<lparr>z_values := z_values nn @ [z], activations := activations nn @ [a]\<rparr>))"
        using "1.prems"(2) by simp
      show "\<forall>k<length (weights (nn\<lparr>z_values := z_values nn @ [z], activations := activations nn @ [a]\<rparr>)). i + 1 \<le> k \<longrightarrow>
           length (biases (nn\<lparr>z_values := z_values nn @ [z], activations := activations nn @ [a]\<rparr>) ! k) =
           length (weights (nn\<lparr>z_values := z_values nn @ [z], activations := activations nn @ [a]\<rparr>) ! k) \<and>
           (\<forall>row \<in> set (weights (nn\<lparr>z_values := z_values nn @ [z], activations := activations nn @ [a]\<rparr>) ! k).
              length row = (if k = i + 1 then length a
                 else length (weights (nn\<lparr>z_values := z_values nn @ [z], activations := activations nn @ [a]\<rparr>) ! (k - 1))))"
        using "1.prems"(3) la by (auto simp: W_def)
      show "i + 1 < length (weights (nn\<lparr>z_values := z_values nn @ [z], activations := activations nn @ [a]\<rparr>)) \<longrightarrow>
            last (weights (nn\<lparr>z_values := z_values nn @ [z], activations := activations nn @ [a]\<rparr>)) \<noteq> []"
        using "1.prems"(4) True by simp
    qed
    have spec: "forward_spec (drop i (zip (weights nn) (biases nn))) out = (z, a) # forward_spec rest a"
      by (simp only: dr forward_spec.simps Let_def z_def a_def)
    have rest_ne: "forward_spec rest a \<noteq> []" if "i + 1 \<noteq> length (weights nn)"
    proof -
      from that lastl True have "rest \<noteq> []" by auto
      then obtain p ps where "rest = p # ps" by (cases rest) auto
      then show ?thesis by (cases p) (simp add: Let_def)
    qed
    have rest_eq: "drop (i + 1) (zip (weights nn') (biases nn')) = rest"
      by (simp add: nn' rest_def)
    have rest_nil: "forward_spec rest a = []" if "i + 1 = length (weights nn)"
    proof -
      from that have "i = length (weights nn) - 1" by arith
      with lastl have "rest = []" by blast
      then show ?thesis by simp
    qed
    show ?thesis
    proof (cases "i + 1 = length (weights nn)")
      case True
      then show ?thesis
        unfolding step ih spec rest_eq by (simp add: nn'_def rest_nil)
    next
      case False
      then show ?thesis
        unfolding step ih spec rest_eq using rest_ne il by (simp add: nn'_def)
    qed
  qed
qed

lemma forward_propagation_total:
  assumes "well_dimensioned nn input"
  shows "forward_propagation nn input =
           (Inr (snd (last (forward_spec (zip (weights nn) (biases nn)) input))),
            nn\<lparr>activations := map snd (forward_spec (zip (weights nn) (biases nn)) input),
               z_values := map fst (forward_spec (zip (weights nn) (biases nn)) input)\<rparr>)"
proof -
  let ?nn = "nn\<lparr>activations := [], z_values := []\<rparr>"
  from assms have ne: "weights nn \<noteq> []" "last (weights nn) \<noteq> []"
    and sh: "shape_invariant (length input # map length (weights nn)) nn"
    by (simp_all add: well_dimensioned_def)
  have "forward_loop 0 input ?nn =
           (Inr (if 0 = length (weights ?nn) then input
                 else snd (last (forward_spec (drop 0 (zip (weights ?nn) (biases ?nn))) input))),
            ?nn\<lparr>z_values := z_values ?nn @ map fst (forward_spec (drop 0 (zip (weights ?nn) (biases ?nn))) input),
               activations := activations ?nn @ map snd (forward_spec (drop 0 (zip (weights ?nn) (biases ?nn))) input)\<rparr>)"
  proof (rule forward_loop_spec)
    show "\<forall>k<length (weights ?nn). 0 \<le> k \<longrightarrow>
           length (biases ?nn ! k) = length (weights ?nn ! k) \<and>
           (\<forall>row \<in> set (weights ?nn ! k).
              length row = (if k = 0 then length input else length (weights ?nn ! (k - 1))))"
      using sh by (auto simp: shape_invariant_def nth_Cons split: nat.splits)
  qed (use sh ne in \<open>simp_all add: shape_invariant_def\<close>)
  with ne show ?thesis by (simp add: forward_propagation_def)
qed


text \<open>
  Claim C4. For a network that satisfies the shape invariant, has at least one layer and a
  non-empty output layer, and an input as long as the rows of the first matrix,
  forward propagation computes what \<open>forward_spec\<close> says: layer by layer the pre-activation
  \<open>z\<^sub>j = (\<Sum>\<^sub>k W\<^sub>j\<^sub>k x\<^sub>k) + b\<^sub>j\<close> from the previous activation (the input for the first layer),
  ReLU on every layer but the last, softmax on the last; the cache receives every \<open>z\<close> and
  every activation, and the result is the last activation.
\<close>

theorem forward_propagation_computes:
  assumes "well_dimensioned nn input"
  shows "forward_propagation nn input =
           (Inr (snd (last (forward_spec (zip (weights nn) (biases nn)) input))),
            nn\<lparr>activations := map snd (forward_spec (zip (weights nn) (biases nn)) input),
               z_values := map fst (forward_spec (zip (weights nn) (biases nn)) input)\<rparr>)"
  using assms by (rule forward_propagation_total)

lemma well_dimensioned_two_layer: "well_dimensioned two_layer_network [1]"
  by (simp add: well_dimensioned_def shape_invariant_def two_layer_network_def
      less_Suc_eq nth_Cons split: nat.splits)

lemma forward_spec_two_layer:
  "forward_spec (zip (weights two_layer_network) (biases two_layer_network)) [1] =
     [([1, - 1], [1, 0]), ([1, 0], softmax_math [1, 0])]"
  by (simp add: two_layer_network_def relu_def Let_def upt_rec[of 0] upt_rec[of 1] upt_rec[of "Suc 0"])

theorem forward_propagation_computes_witness:
  "well_dimensioned two_layer_network [1] \<and>
   forward_propagation two_layer_network [1] =
     (Inr (softmax_math [1, 0]),
      two_layer_network\<lparr>activations := [[1, 0], softmax_math [1, 0]],
                         z_values := [[1, - 1], [1, 0]]\<rparr>)"
  using forward_propagation_computes[OF well_dimensioned_two_layer]
  by (simp add: well_dimensioned_two_layer forward_spec_two_layer)

section \<open>Prediction\<close>

lemma max_element_prefix:
  fixes xs :: Vector
  assumes "1 \<le> n" and "n \<le> length xs"
  shows "fold (\<lambda>i largest. if xs ! largest < xs ! i then i else largest) [1..<n] 0 < n \<and>
         (\<forall>j<n. xs ! j \<le> xs ! fold (\<lambda>i largest. if xs ! largest < xs ! i then i else largest) [1..<n] 0) \<and>
         (\<forall>j<fold (\<lambda>i largest. if xs ! largest < xs ! i then i else largest) [1..<n] 0.
             xs ! j < xs ! fold (\<lambda>i largest. if xs ! largest < xs ! i then i else largest) [1..<n] 0)"
  using assms
proof (induction n)
  case 0
  then show ?case by simp
next
  case (Suc n)
  show ?case
  proof (cases "n = 0")
    case True
    then show ?thesis by simp
  next
    case False
    define m where "m = fold (\<lambda>i largest. if xs ! largest < xs ! i then i else largest) [1..<n] 0"
    from False Suc.prems have "1 \<le> n" "n \<le> length xs" by simp_all
    from Suc.IH[OF this] have ih: "m < n" "\<forall>j<n. xs ! j \<le> xs ! m" "\<forall>j<m. xs ! j < xs ! m"
      by (simp_all add: m_def)
    have step: "fold (\<lambda>i largest. if xs ! largest < xs ! i then i else largest) [1..<Suc n] 0 =
                 (if xs ! m < xs ! n then n else m)"
      using \<open>1 \<le> n\<close> by (simp add: m_def)
    show ?thesis
    proof (cases "xs ! m < xs ! n")
      case True
      have "\<forall>j<Suc n. xs ! j \<le> xs ! n"
        using ih(2) True by (auto simp: less_Suc_eq intro: order.trans less_imp_le)
      moreover have "\<forall>j<n. xs ! j < xs ! n"
        using ih(2) True by (auto intro: le_less_trans)
      ultimately show ?thesis unfolding step using True by simp
    next
      case False
      have "\<forall>j<Suc n. xs ! j \<le> xs ! m"
        using ih(2) False by (auto simp: less_Suc_eq)
      then show ?thesis unfolding step using False ih(1,3) by simp
    qed
  qed
qed

lemma max_element_first_max:
  assumes "xs \<noteq> []"
  shows "max_element xs < length xs \<and>
         (\<forall>j<length xs. xs ! j \<le> xs ! max_element xs) \<and>
         (\<forall>j<max_element xs. xs ! j < xs ! max_element xs)"
proof -
  from assms have "1 \<le> length xs" by (cases xs) simp_all
  from max_element_prefix[OF this order_refl] show ?thesis by (simp add: max_element_def)
qed

lemma sint_word_of_nat: "n < 2 ^ 31 \<Longrightarrow> sint (word_of_nat n :: c_int) = int n"
  by (simp add: sint_uint unsigned_of_nat take_bit_nat_eq_self signed_take_bit_int_eq_self)

lemma forward_propagation_keeps:
  "weights (snd (forward_propagation nn input)) = weights nn"
  "biases (snd (forward_propagation nn input)) = biases nn"
  "learning_rate (snd (forward_propagation nn input)) = learning_rate nn"
  using forward_loop_frame[of 0 input "nn\<lparr>activations := [], z_values := []\<rparr>"]
  by (simp_all add: forward_propagation_def)

lemma forward_propagation_cache_ok:
  "fst (forward_propagation nn input) = Inr r \<Longrightarrow>
   cache_well_formed (snd (forward_propagation nn input))"
  unfolding forward_propagation_def
  by (rule forward_loop_cache) simp_all

lemma forward_spec_length [simp]: "length (forward_spec layers x) = length layers"
  by (induction layers x rule: forward_spec.induct) (simp_all add: Let_def)

lemma forward_propagation_output:
  assumes "well_dimensioned nn input"
  shows "\<exists>out nn'. forward_propagation nn input = (Inr out, nn') \<and>
           weights nn' = weights nn \<and> biases nn' = biases nn \<and>
           learning_rate nn' = learning_rate nn \<and> cache_well_formed nn' \<and>
           last (activations nn') = out \<and> length out = length (last (weights nn)) \<and> out \<noteq> []"
proof -
  define spec where "spec = forward_spec (zip (weights nn) (biases nn)) input"
  define out where "out = snd (last spec)"
  define nn' where "nn' = nn\<lparr>activations := map snd spec, z_values := map fst spec\<rparr>"
  have run: "forward_propagation nn input = (Inr out, nn')"
    unfolding out_def nn'_def spec_def by (rule forward_propagation_total[OF assms])
  from assms have ne: "weights nn \<noteq> []" "last (weights nn) \<noteq> []"
    and lb: "length (biases nn) = length (weights nn)"
    by (simp_all add: well_dimensioned_def shape_invariant_def)
  have keep: "weights nn' = weights nn" "biases nn' = biases nn" "learning_rate nn' = learning_rate nn"
    by (simp_all add: nn'_def)
  have cache: "cache_well_formed nn'"
    using forward_propagation_cache_ok[of nn input out] run by simp
  have ls: "length spec = length (weights nn)" using lb by (simp add: spec_def)
  with ne have sne: "spec \<noteq> []" by auto
  have acts: "activations nn' = map snd spec" by (simp add: nn'_def)
  from sne have lastact: "last (activations nn') = out" by (simp add: acts out_def last_map)
  have la: "length (activations nn') = length (weights nn)" by (simp add: acts ls)
  from ne have lt: "length (weights nn) - 1 < length (weights nn')" by (simp add: keep)
  from cache lt have "length (activations nn' ! (length (weights nn) - 1)) =
      length (weights nn' ! (length (weights nn) - 1))"
    unfolding cache_well_formed_def by blast
  moreover have "activations nn' ! (length (weights nn) - 1) = last (activations nn')"
    using la ne by (metis last_conv_nth length_0_conv)
  moreover have "weights nn' ! (length (weights nn) - 1) = last (weights nn)"
    using ne by (simp add: keep last_conv_nth)
  ultimately have len: "length out = length (last (weights nn))"
    using lastact by simp
  with ne have "out \<noteq> []" by auto
  with run cache lastact len keep show ?thesis by blast
qed

text \<open>
  Claim C8. For a network and an input that fit (and an output layer of fewer than \<open>2\<^sup>3\<^sup>1\<close>
  neurons, so that the index fits the \<^verbatim>\<open>int\<close> result), \<open>predict\<close> runs forward propagation
  and returns an index \<open>p\<close> with \<open>0 \<le> p < output_size\<close> at which the output is largest,
  every entry before \<open>p\<close> being strictly smaller: the first maximum.
\<close>

theorem predict_first_maximum:
  assumes "well_dimensioned nn input" and "length (last (weights nn)) < 2 ^ 31"
  shows "\<exists>out p. fst (forward_propagation nn input) = Inr out \<and>
           fst (predict nn input) = Inr p \<and>
           0 \<le> sint p \<and> nat (sint p) < length (last (weights nn)) \<and>
           length out = length (last (weights nn)) \<and>
           (\<forall>j<length out. out ! j \<le> out ! nat (sint p)) \<and>
           (\<forall>j<nat (sint p). out ! j < out ! nat (sint p))"
proof -
  from forward_propagation_output[OF assms(1)] obtain out nn' where
    run: "forward_propagation nn input = (Inr out, nn')"
    and len: "length out = length (last (weights nn))" and ne: "out \<noteq> []"
    by blast
  from max_element_first_max[OF ne] have m: "max_element out < length out"
    "\<forall>j<length out. out ! j \<le> out ! max_element out"
    "\<forall>j<max_element out. out ! j < out ! max_element out"
    by simp_all
  from m(1) len assms(2) have "max_element out < 2 ^ 31" by simp
  then have s: "sint (word_of_nat (max_element out) :: c_int) = int (max_element out)"
    by (rule sint_word_of_nat)
  have p: "fst (predict nn input) = Inr (word_of_nat (max_element out))"
    using run by (simp add: predict_def)
  show ?thesis
    using run p m len by (intro exI[of _ out] exI[of _ "word_of_nat (max_element out)"]) (simp add: s)
qed

theorem predict_first_maximum_witness:
  "well_dimensioned two_layer_network [1] \<and>
   length (last (weights two_layer_network)) < 2 ^ 31 \<and>
   (\<exists>out p. fst (forward_propagation two_layer_network [1]) = Inr out \<and>
      fst (predict two_layer_network [1]) = Inr p \<and>
      0 \<le> sint p \<and> nat (sint p) < 2 \<and>
      (\<forall>j<length out. out ! j \<le> out ! nat (sint p)))"
proof -
  have l: "length (last (weights two_layer_network)) < 2 ^ 31"
    by (simp add: two_layer_network_def)
  have "length (last (weights two_layer_network)) = 2"
    by (simp add: two_layer_network_def)
  with predict_first_maximum[OF well_dimensioned_two_layer l] l well_dimensioned_two_layer
  show ?thesis by auto
qed

section \<open>Evaluation\<close>

lemma forward_propagation_same_parameters:
  assumes "weights a = weights b" and "biases a = biases b" and "learning_rate a = learning_rate b"
  shows "forward_propagation a x = forward_propagation b x"
proof -
  have "a\<lparr>activations := [], z_values := []\<rparr> = b\<lparr>activations := [], z_values := []\<rparr>"
    using assms by (intro NeuralNetwork.equality) simp_all
  then show ?thesis by (simp add: forward_propagation_def)
qed

lemma predict_same_parameters:
  assumes "weights a = weights b" and "biases a = biases b" and "learning_rate a = learning_rate b"
  shows "predict a x = predict b x"
  by (simp add: predict_def forward_propagation_same_parameters[OF assms])

lemma predict_keeps:
  "weights (snd (predict nn x)) = weights nn"
  "biases (snd (predict nn x)) = biases nn"
  "learning_rate (snd (predict nn x)) = learning_rate nn"
  using forward_propagation_keeps[of nn x]
  by (auto simp: predict_def split: prod.splits sum.splits)

lemma correct_count_step:
  "i < length inputs \<Longrightarrow>
   correct_count nn inputs labels i =
     (if fst (predict nn (inputs ! i)) = Inr (labels ! i) then 1 else 0) +
     correct_count nn inputs labels (Suc i)"
  by (simp add: correct_count_def upt_conv_Cons)

lemma correct_count_le: "correct_count nn inputs labels i \<le> length inputs - i"
  unfolding correct_count_def by (rule order.trans[OF length_filter_le]) simp

lemma sint_c_int_succ:
  assumes "sint (w :: c_int) = int c" and "c + 1 < 2 ^ 31"
  shows "sint (w + 1) = int (c + 1)" and "sint w \<noteq> 2 ^ 31 - 1"
proof -
  from assms(1) have "w = word_of_int (int c)" by (metis scast_eq scast_id)
  then have "w + 1 = word_of_nat (c + 1)" by simp
  with sint_word_of_nat[OF assms(2)] show "sint (w + 1) = int (c + 1)" by (simp only:)
  from assms show "sint w \<noteq> 2 ^ 31 - 1" by simp
qed

lemma evaluate_loop_counts:
  assumes "weights nn = weights nn0" and "biases nn = biases nn0"
    and "learning_rate nn = learning_rate nn0"
    and "length inputs \<le> length labels"
    and "\<forall>k<length inputs. \<exists>p. fst (predict nn0 (inputs ! k)) = Inr p"
    and "sint correct = int c" and "c + (length inputs - i) < 2 ^ 31"
  shows "\<exists>r. fst (evaluate_loop inputs labels i correct nn) = Inr r \<and>
             sint r = int (c + correct_count nn0 inputs labels i)"
  using assms
proof (induction inputs labels i correct nn arbitrary: c rule: evaluate_loop.induct)
  case (1 inputs labels i correct nn)
  show ?case
  proof (cases "i < length inputs")
    case False
    then have "correct_count nn0 inputs labels i = 0" by (simp add: correct_count_def)
    with False "1.prems"(6) show ?thesis by (simp add: evaluate_loop.simps[of inputs labels i])
  next
    case True
    note il = True
    have same: "predict nn (inputs ! i) = predict nn0 (inputs ! i)"
      using "1.prems"(1,2,3) by (rule predict_same_parameters)
    from "1.prems"(5) il obtain p where p: "fst (predict nn0 (inputs ! i)) = Inr p" by blast
    obtain nn1 where run: "predict nn (inputs ! i) = (Inr p, nn1)"
      using p same by (metis prod.collapse)
    have keep: "weights nn1 = weights nn0" "biases nn1 = biases nn0"
      "learning_rate nn1 = learning_rate nn0"
      using predict_keeps[of nn "inputs ! i"] run "1.prems"(1,2,3) by simp_all
    have lab: "at_index labels i = Inr (labels ! i)" using il "1.prems"(4) by simp
    show ?thesis
    proof (cases "p = labels ! i")
      case True
      have c1: "c + 1 < 2 ^ 31" using "1.prems"(7) il by simp
      from sint_c_int_succ[OF "1.prems"(6) c1]
      have s: "sint (correct + 1) = int (c + 1)" and nov: "sint correct \<noteq> 2 ^ 31 - 1" .
      have "\<exists>r. fst (evaluate_loop inputs labels (i + 1) (correct + 1) nn1) = Inr r \<and>
                 sint r = int (c + 1 + correct_count nn0 inputs labels (i + 1))"
        using il run lab True nov keep "1.prems"(4,5,7) s
        by (intro "1.IH"(1)[of "Inr p" nn1 p "labels ! i"]) simp_all
      moreover have "evaluate_loop inputs labels i correct nn =
                     evaluate_loop inputs labels (i + 1) (correct + 1) nn1"
        using il run lab True nov by (simp add: evaluate_loop.simps[of inputs labels i])
      moreover have "correct_count nn0 inputs labels i = 1 + correct_count nn0 inputs labels (i + 1)"
        using correct_count_step[OF il, of nn0 labels] p True by simp
      ultimately show ?thesis by simp
    next
      case False
      have "\<exists>r. fst (evaluate_loop inputs labels (i + 1) correct nn1) = Inr r \<and>
                 sint r = int (c + correct_count nn0 inputs labels (i + 1))"
        using il run lab False keep "1.prems"(4,5,6,7)
        by (intro "1.IH"(2)[of "Inr p" nn1 p "labels ! i"]) simp_all
      moreover have "evaluate_loop inputs labels i correct nn =
                     evaluate_loop inputs labels (i + 1) correct nn1"
        using il run lab False by (simp add: evaluate_loop.simps[of inputs labels i])
      moreover have "correct_count nn0 inputs labels i = correct_count nn0 inputs labels (i + 1)"
        using correct_count_step[OF il, of nn0 labels] p False by simp
      ultimately show ?thesis by simp
    qed
  qed
qed

lemma evaluate_nonempty:
  assumes "inputs \<noteq> []" and "length inputs < 2 ^ 31" and "length inputs \<le> length labels"
    and "\<forall>k<length inputs. \<exists>p. fst (predict nn (inputs ! k)) = Inr p"
  shows "fst (evaluate nn inputs labels) =
           Inr (Fin (100 * real (correct_count nn inputs labels 0) / real (length inputs)))"
proof -
  have "\<exists>r. fst (evaluate_loop inputs labels 0 0 nn) = Inr r \<and>
             sint r = int (0 + correct_count nn inputs labels 0)"
    using assms(2,3,4) by (intro evaluate_loop_counts) simp_all
  then obtain r where r: "fst (evaluate_loop inputs labels 0 0 nn) = Inr r"
    "sint r = int (correct_count nn inputs labels 0)" by auto
  then obtain nn1 where "evaluate_loop inputs labels 0 0 nn = (Inr r, nn1)"
    by (metis prod.collapse)
  with r(2) assms(1) show ?thesis by (simp add: evaluate_def fp_div_def fp_mult_def)
qed

lemma evaluate_empty: "evaluate nn [] labels = (Inr NaN, nn)"
  by (simp add: evaluate_def evaluate_loop.simps[of "[]"] fp_div_def fp_mult_def)

text \<open>
  Claim C3, as the code has it. On an empty test set \<open>evaluate\<close> raises nothing: the
  division \<open>0.0 / 0\<close> gives NaN, which is returned. On a non-empty test set (fewer than
  \<open>2\<^sup>3\<^sup>1\<close> inputs, at least as many labels as inputs, every prediction succeeding) it
  returns \<open>100 * correct / total\<close>, where \<open>correct\<close> counts the indices whose prediction
  equals the label: \<open>100\<close> when all match, \<open>0\<close> when none does.
\<close>

theorem evaluate_accuracy:
  "evaluate nn [] labels = (Inr NaN, nn) \<and>
   (inputs \<noteq> [] \<and> length inputs < 2 ^ 31 \<and> length inputs \<le> length labels \<and>
    (\<forall>k<length inputs. \<exists>p. fst (predict nn (inputs ! k)) = Inr p) \<longrightarrow>
      fst (evaluate nn inputs labels) =
        Inr (Fin (100 * real (correct_count nn inputs labels 0) / real (length inputs))) \<and>
      (correct_count nn inputs labels 0 = length inputs \<longrightarrow>
         fst (evaluate nn inputs labels) = Inr (Fin 100)) \<and>
      (correct_count nn inputs labels 0 = 0 \<longrightarrow>
         fst (evaluate nn inputs labels) = Inr (Fin 0)))"
  using evaluate_nonempty[of inputs labels nn] evaluate_empty[of nn labels]
  by simp

text \<open>With no inputs and no labels the result is NaN, not an error.\<close>

theorem evaluate_empty_counterexample:
  "evaluate unit_network [] [] = (Inr NaN, unit_network)"
  by (simp add: evaluate_def evaluate_loop.simps[of "[]"] fp_div_def fp_mult_def)

lemma predict_unit_network: "predict unit_network [1] = (Inr 0, unit_network\<lparr>activations := [[1]], z_values := [[2]]\<rparr>)"
  by (simp add: predict_def forward_unit_network max_element_def)

theorem evaluate_accuracy_witness:
  "fst (evaluate unit_network [[1]] [0]) = Inr (Fin 100) \<and>
   fst (evaluate unit_network [[1]] [1]) = Inr (Fin 0) \<and>
   evaluate unit_network [] [0] = (Inr NaN, unit_network)"
  using evaluate_accuracy[of unit_network "[0]" "[[1]]"]
    evaluate_accuracy[of unit_network "[1]" "[[1]]"]
  by (simp add: correct_count_def predict_unit_network)

section \<open>The shape of the parameters\<close>

lemma shape_invariant_by_shape:
  assumes "parameter_shape a = parameter_shape b"
  shows "shape_invariant sizes a = shape_invariant sizes b"
proof -
  from assms have w: "map (map length) (weights a) = map (map length) (weights b)"
    and bs: "map length (biases a) = map length (biases b)"
    by (simp_all add: parameter_shape_def)
  from w have lw: "length (weights a) = length (weights b)" by (metis length_map)
  from bs have lb: "length (biases a) = length (biases b)" by (metis length_map)
  have rows: "map length (weights a ! i) = map length (weights b ! i)" if "i < length (weights b)" for i
    using that w lw by (metis nth_map)
  have bl: "length (biases a ! i) = length (biases b ! i)" if "i < length (biases b)" for i
    using that bs lb by (metis nth_map)
  have rl: "(\<forall>row \<in> set (weights a ! i). length row = c) \<longleftrightarrow>
            (\<forall>row \<in> set (weights b ! i). length row = c)" if "i < length (weights b)" for i c
  proof -
    have "(\<forall>row \<in> set (weights a ! i). length row = c) \<longleftrightarrow>
          (\<forall>n \<in> set (map length (weights a ! i)). n = c)" by simp
    also have "\<dots> \<longleftrightarrow> (\<forall>n \<in> set (map length (weights b ! i)). n = c)"
      by (simp only: rows[OF that])
    also have "\<dots> \<longleftrightarrow> (\<forall>row \<in> set (weights b ! i). length row = c)" by simp
    finally show ?thesis .
  qed
  have ll: "length (weights a ! i) = length (weights b ! i)" if "i < length (weights b)" for i
    using rows[OF that] by (metis length_map)
  show ?thesis
    unfolding shape_invariant_def lw lb
    by (intro conj_cong refl all_cong1 imp_cong) (simp_all add: rl ll bl)
qed

lemma length_nth_update_entry: "length (W[i := (W ! i)[j := v]] ! k) = length (W ! k)"
  by (cases "k = i"; cases "i < length W") (simp_all add: list_update_beyond)

lemma map_length_update_entry: "map length (W[i := (W ! i)[j := v]]) = map length W"
  by (rule nth_equalityI) (simp_all add: length_nth_update_entry)

lemma shape_nth_update_weight:
  "map length (ws[l := (ws ! l)[i := (ws ! l ! i)[j := v]]] ! k) = map length (ws ! k)"
  by (cases "k = l"; cases "l < length ws") (simp_all add: map_length_update_entry list_update_beyond)

lemma shape_update_weight:
  "map (map length) (ws[l := (ws ! l)[i := (ws ! l ! i)[j := v]]]) = map (map length) ws"
  by (rule nth_equalityI) (simp_all add: shape_nth_update_weight)

lemma shape_update_bias: "map length (bs[l := (bs ! l)[i := v]]) = map length bs"
  by (rule nth_equalityI) (simp_all add: length_nth_update_entry)

lemma update_weight_shape:
  "update_weight input layer delta i j nn = Inr nn' \<Longrightarrow> parameter_shape nn' = parameter_shape nn"
  by (auto simp: update_weight_def sum_bind_eq_Inr parameter_shape_def shape_update_weight)

lemma update_bias_shape:
  "update_bias layer delta i nn = Inr nn' \<Longrightarrow> parameter_shape nn' = parameter_shape nn"
  by (auto simp: update_bias_def sum_bind_eq_Inr at_index_eq_Inr parameter_shape_def shape_update_bias)

lemma update_layer_shape:
  assumes "update_layer input layer delta nn = Inr nn'"
  shows "parameter_shape nn' = parameter_shape nn"
  using assms unfolding update_layer_def
proof (rule for_loop_partial[where I = "\<lambda>k t. parameter_shape t = parameter_shape nn"])
  fix k u u'
  assume inv: "parameter_shape u = parameter_shape nn"
    and body: "sum_bind (for_loop 0 (length (weights u ! layer ! k)) (update_weight input layer delta k) u)
                 (update_bias layer delta k) = Inr u'"
  from body obtain v where v: "for_loop 0 (length (weights u ! layer ! k)) (update_weight input layer delta k) u = Inr v"
    and b: "update_bias layer delta k v = Inr u'"
    by (auto simp: sum_bind_eq_Inr)
  have "parameter_shape v = parameter_shape u"
    using v by (rule for_loop_partial[where I = "\<lambda>j t. parameter_shape t = parameter_shape u"])
      (simp_all add: update_weight_shape)
  with update_bias_shape[OF b] inv show "parameter_shape u' = parameter_shape nn" by simp
qed simp_all

lemma backward_loop_shape:
  "backward_loop input n delta nn = Inr nn' \<Longrightarrow> parameter_shape nn' = parameter_shape nn"
proof (induction n arbitrary: delta nn)
  case 0
  then show ?case by simp
next
  case (Suc layer)
  from Suc.prems obtain nn1 where u: "update_layer input layer delta nn = Inr nn1"
    by (auto split: sum.splits)
  have s1: "parameter_shape nn1 = parameter_shape nn" by (rule update_layer_shape[OF u])
  from Suc.prems u obtain d where "backward_loop input layer d nn1 = Inr nn'"
    by (auto split: sum.splits if_splits)
  from Suc.IH[OF this] s1 show ?case by simp
qed

lemma backward_propagation_shape:
  "backward_propagation nn input target = Inr nn' \<Longrightarrow> parameter_shape nn' = parameter_shape nn"
  by (auto simp: backward_propagation_def sum_bind_eq_Inr split: if_splits dest: backward_loop_shape)

lemma forward_propagation_shape:
  "parameter_shape (snd (forward_propagation nn input)) = parameter_shape nn"
  by (simp add: parameter_shape_def forward_propagation_keeps)

lemma predict_shape: "parameter_shape (snd (predict nn input)) = parameter_shape nn"
  by (simp add: parameter_shape_def predict_keeps)

lemma evaluate_loop_shape:
  "parameter_shape (snd (evaluate_loop inputs labels i correct nn)) = parameter_shape nn"
proof (induction inputs labels i correct nn rule: evaluate_loop.induct)
  case (1 inputs labels i correct nn)
  obtain r nn1 where p: "predict nn (inputs ! i) = (r, nn1)" by (cases "predict nn (inputs ! i)")
  have s1: "parameter_shape nn1 = parameter_shape nn" using predict_shape[of nn "inputs ! i"] p by simp
  show ?case
  proof (cases "i < length inputs \<and> (\<exists>b. r = Inr b) \<and> i < length labels")
    case False
    then show ?thesis using p s1
      by (auto simp: evaluate_loop.simps[of inputs labels i] split: sum.splits)
  next
    case True
    then obtain b where b: "r = Inr b" and il: "i < length inputs" "i < length labels" by auto
    show ?thesis
    proof (cases "b = labels ! i")
      case True
      show ?thesis
      proof (cases "sint correct = 2 ^ 31 - 1")
        case True
        with \<open>b = labels ! i\<close> il b p s1 show ?thesis
          by (simp add: evaluate_loop.simps[of inputs labels i])
      next
        case False
        have "parameter_shape (snd (evaluate_loop inputs labels (i + 1) (correct + 1) nn1)) =
              parameter_shape nn1"
          using il p b True False by (intro "1.IH"(1)[of r nn1 b "labels ! i"]) simp_all
        with True False il b p s1 show ?thesis
          by (simp add: evaluate_loop.simps[of inputs labels i])
      qed
    next
      case False
      have "parameter_shape (snd (evaluate_loop inputs labels (i + 1) correct nn1)) =
            parameter_shape nn1"
        using il p b False by (intro "1.IH"(2)[of r nn1 b "labels ! i"]) simp_all
      with False il b p s1 show ?thesis
        by (simp add: evaluate_loop.simps[of inputs labels i])
    qed
  qed
qed

lemma evaluate_shape: "parameter_shape (snd (evaluate nn inputs labels)) = parameter_shape nn"
  using evaluate_loop_shape[of inputs labels 0 0 nn]
  by (auto simp: evaluate_def split: prod.splits sum.splits)

lemma train_epoch_shape:
  "parameter_shape (snd (train_epoch inputs labels i total_loss nn)) = parameter_shape nn"
proof (induction inputs labels i total_loss nn rule: train_epoch.induct)
  case (1 inputs labels i total_loss nn)
  obtain r nn1 where f: "forward_propagation nn (inputs ! i) = (r, nn1)"
    by (cases "forward_propagation nn (inputs ! i)")
  have s1: "parameter_shape nn1 = parameter_shape nn"
    using forward_propagation_shape[of nn "inputs ! i"] f by simp
  show ?case
  proof (cases "i < length inputs \<and> (\<exists>out. r = Inr out) \<and> i < length labels")
    case False
    then show ?thesis using f s1
      by (auto simp: train_epoch.simps[of inputs labels i] split: sum.splits)
  next
    case True
    then obtain out where out: "r = Inr out" and il: "i < length inputs" "i < length labels"
      by auto
    show ?thesis
    proof (cases "backward_propagation nn1 (inputs ! i) (labels ! i)")
      case (Inl e)
      with il out f s1 show ?thesis by (simp add: train_epoch.simps[of inputs labels i])
    next
      case (Inr nn2)
      have s2: "parameter_shape nn2 = parameter_shape nn"
        using backward_propagation_shape[OF Inr] s1 by simp
      show ?thesis
      proof (cases "sample_loss (labels ! i) out total_loss")
        case (Inl e)
        with Inr il out f s2 show ?thesis by (simp add: train_epoch.simps[of inputs labels i])
      next
        case loss: (Inr l)
        have "parameter_shape (snd (train_epoch inputs labels (i + 1) l nn2)) = parameter_shape nn2"
          using il f out Inr loss by (intro "1.IH"[of r nn1 out "labels ! i"]) simp_all
        with Inr loss il out f s2 show ?thesis by (simp add: train_epoch.simps[of inputs labels i])
      qed
    qed
  qed
qed

lemma train_epochs_shape:
  "parameter_shape (snd (train_epochs inputs labels n nn)) = parameter_shape nn"
proof (induction n arbitrary: nn)
  case 0
  show ?case by simp
next
  case (Suc n)
  obtain r nn1 where e: "train_epoch inputs labels 0 0 nn = (r, nn1)"
    by (cases "train_epoch inputs labels 0 0 nn")
  have s1: "parameter_shape nn1 = parameter_shape nn"
    using train_epoch_shape[of inputs labels 0 0 nn] e by simp
  obtain r2 nn2 where e2: "train_epochs inputs labels n nn1 = (r2, nn2)"
    by (cases "train_epochs inputs labels n nn1")
  have "parameter_shape nn2 = parameter_shape nn1" using Suc[of nn1] e2 by simp
  with s1 e e2 show ?case by (auto split: sum.splits)
qed

lemma train_shape: "parameter_shape (snd (train nn inputs labels epochs)) = parameter_shape nn"
  by (simp add: train_def train_epochs_shape)

lemma NeuralNetwork_new_shape:
  assumes "NeuralNetwork_new dis architecture lr = Inr nn"
  shows "shape_invariant (layer_sizes architecture) nn"
proof (cases "2 \<le> length architecture \<and> (\<exists>a \<in> set architecture. sint a < 0)")
  case True
  with NeuralNetwork_new_negative[of architecture dis lr] assms show ?thesis by simp
next
  case False
  show ?thesis
  proof (cases "length architecture < 2")
    case True
    with assms show ?thesis
      by (auto simp: NeuralNetwork_new_short shape_invariant_def layer_sizes_def)
  next
    case long: False
    with False have "\<forall>a \<in> set architecture. 0 \<le> sint a" by auto
    from NeuralNetwork_new_nonnegative[OF this, of dis lr] assms show ?thesis by auto
  qed
qed

lemma replicate_2_3: "replicate 2 x = [x, x]" "replicate 3 x = [x, x, x]"
  by (simp_all add: numeral_2_eq_2 numeral_3_eq_3)

lemma NeuralNetwork_new_2_3_2:
  "NeuralNetwork_new dis [2, 3, 2] lr =
     Inr \<lparr>weights = [[[dis 0, dis 1], [dis 2, dis 3], [dis 4, dis 5]],
                     [[dis 6, dis 7, dis 8], [dis 9, dis 10, dis 11]]],
          biases = [[0, 0, 0], [0, 0]], activations = [], z_values = [], learning_rate = lr\<rparr>"
  by (simp add: NeuralNetwork_new_def for_loop_def upt_rec[of 1] upt_rec[of 2] upt_rec[of 3]
      add_layer_def vector_n_nonnegative replicate_2_3) (simp add: eval_nat_numeral)

text \<open>
  Claim C7. A network that the constructor returns satisfies the shape invariant for the
  sizes of its architecture. Every operation keeps the invariant: forward propagation,
  prediction, evaluation and training in the state they leave, backward propagation in the
  network it returns. For the architecture \<open>[2, 3, 2]\<close> the constructor returns matrices of
  shapes \<open>3\<times>2\<close> and \<open>2\<times>3\<close> and bias vectors of lengths \<open>3\<close> and \<open>2\<close>.
\<close>

theorem shape_invariant_kept:
  "(NeuralNetwork_new dis architecture lr = Inr nn0 \<longrightarrow>
      shape_invariant (layer_sizes architecture) nn0) \<and>
   (shape_invariant sizes nn \<longrightarrow>
      shape_invariant sizes (snd (forward_propagation nn input)) \<and>
      (\<forall>nn'. backward_propagation nn input target = Inr nn' \<longrightarrow> shape_invariant sizes nn') \<and>
      shape_invariant sizes (snd (predict nn input)) \<and>
      shape_invariant sizes (snd (evaluate nn inputs labels)) \<and>
      shape_invariant sizes (snd (train nn inputs targets epochs))) \<and>
   (\<exists>nn1. NeuralNetwork_new dis [2, 3, 2] lr = Inr nn1 \<and>
      map (map length) (weights nn1) = [[2, 2, 2], [3, 3]] \<and>
      map length (biases nn1) = [3, 2])"
proof (intro conjI impI allI)
  assume "NeuralNetwork_new dis architecture lr = Inr nn0"
  then show "shape_invariant (layer_sizes architecture) nn0" by (rule NeuralNetwork_new_shape)
next
  assume inv: "shape_invariant sizes nn"
  show "shape_invariant sizes (snd (forward_propagation nn input))"
    using inv shape_invariant_by_shape[OF forward_propagation_shape] by simp
  show "shape_invariant sizes (snd (predict nn input))"
    using inv shape_invariant_by_shape[OF predict_shape] by simp
  show "shape_invariant sizes (snd (evaluate nn inputs labels))"
    using inv shape_invariant_by_shape[OF evaluate_shape] by simp
  show "shape_invariant sizes (snd (train nn inputs targets epochs))"
    using inv shape_invariant_by_shape[OF train_shape] by simp
  fix nn'
  assume "backward_propagation nn input target = Inr nn'"
  from backward_propagation_shape[OF this] inv show "shape_invariant sizes nn'"
    using shape_invariant_by_shape by blast
next
  show "\<exists>nn1. NeuralNetwork_new dis [2, 3, 2] lr = Inr nn1 \<and>
      map (map length) (weights nn1) = [[2, 2, 2], [3, 3]] \<and>
      map length (biases nn1) = [3, 2]"
    by (simp add: NeuralNetwork_new_2_3_2)
qed


lemma backward_unit_network:
  "backward_propagation (unit_network\<lparr>activations := [[1]], z_values := [[2]]\<rparr>) [1] [0] =
     Inr \<lparr>weights = [[[1]]], biases = [[- 1]], activations = [[1]], z_values = [[2]],
          learning_rate = 1\<rparr>"
  by (simp add: backward_propagation_def unit_network_def output_delta_def for_loop_def
      update_layer_def update_weight_def update_bias_def)

theorem shape_invariant_kept_witness:
  "NeuralNetwork_new zero_dis [2, 3, 2] 1 =
     Inr \<lparr>weights = [[[0, 0], [0, 0], [0, 0]], [[0, 0, 0], [0, 0, 0]]],
          biases = [[0, 0, 0], [0, 0]], activations = [], z_values = [], learning_rate = 1\<rparr> \<and>
   shape_invariant (layer_sizes [2, 3, 2])
     \<lparr>weights = [[[0, 0], [0, 0], [0, 0]], [[0, 0, 0], [0, 0, 0]]],
      biases = [[0, 0, 0], [0, 0]], activations = [], z_values = [], learning_rate = 1\<rparr> \<and>
   shape_invariant [1, 1] (unit_network\<lparr>activations := [[1]], z_values := [[2]]\<rparr>) \<and>
   shape_invariant [1, 1]
     \<lparr>weights = [[[1]]], biases = [[- 1]], activations = [[1]], z_values = [[2]],
      learning_rate = 1\<rparr> \<and>
   shape_invariant [1, 1]
     (snd (forward_propagation (unit_network\<lparr>activations := [[1]], z_values := [[2]]\<rparr>) [1]))"
proof -
  have built: "NeuralNetwork_new zero_dis [2, 3, 2] 1 =
     Inr \<lparr>weights = [[[0, 0], [0, 0], [0, 0]], [[0, 0, 0], [0, 0, 0]]],
          biases = [[0, 0, 0], [0, 0]], activations = [], z_values = [], learning_rate = 1\<rparr>"
    by (simp add: NeuralNetwork_new_2_3_2 zero_dis_def)
  have inv: "shape_invariant [1, 1] (unit_network\<lparr>activations := [[1]], z_values := [[2]]\<rparr>)"
    by (simp add: shape_invariant_def unit_network_def)
  from shape_invariant_kept[of zero_dis "[2, 3, 2]" 1
      "\<lparr>weights = [[[0, 0], [0, 0], [0, 0]], [[0, 0, 0], [0, 0, 0]]],
        biases = [[0, 0, 0], [0, 0]], activations = [], z_values = [], learning_rate = 1\<rparr>"
      "[1, 1]" "unit_network\<lparr>activations := [[1]], z_values := [[2]]\<rparr>" "[1]" "[0]"
      "[[1]]" "[0]" "[[0]]" 1] built inv backward_unit_network
  show ?thesis by simp
qed

section \<open>Training\<close>

lemma train_epoch_labels_cong:
  assumes "\<forall>k<length inputs. at_index labels' k = at_index labels k"
  shows "train_epoch inputs labels' i total_loss nn = train_epoch inputs labels i total_loss nn"
  using assms
proof (induction inputs labels i total_loss nn rule: train_epoch.induct)
  case (1 inputs labels i total_loss nn)
  show ?case
  proof (cases "i < length inputs")
    case False
    then show ?thesis
      by (simp add: train_epoch.simps[of inputs labels' i] train_epoch.simps[of inputs labels i])
  next
    case True
    have at: "at_index labels' i = at_index labels i" using "1.prems" True by simp
    show ?thesis
      using True at "1.IH" "1.prems"
      by (subst train_epoch.simps[of inputs labels' i], subst train_epoch.simps[of inputs labels i])
         (auto split: prod.splits sum.splits)
  qed
qed

lemma train_epochs_labels_cong:
  assumes "\<forall>k<length inputs. at_index labels' k = at_index labels k"
  shows "train_epochs inputs labels' n nn = train_epochs inputs labels n nn"
  by (induction n arbitrary: nn)
     (auto simp: train_epoch_labels_cong[OF assms] split: prod.splits sum.splits)

text \<open>
  Claim C2, as the code has it. \<open>train\<close> compares no lengths. Its loops run over the inputs:
  labels beyond the last input are never read, so training with more labels than inputs is
  training with the first \<open>length inputs\<close> labels; and when \<open>epochs\<close> is not positive no
  sample is read at all and the call returns at once, whatever the two lengths are.
\<close>

theorem train_ignores_extra_labels:
  "(length inputs \<le> length labels \<longrightarrow>
      train nn inputs labels epochs = train nn inputs (take (length inputs) labels) epochs) \<and>
   (sint epochs \<le> 0 \<longrightarrow> train nn inputs labels epochs = (Inr [], nn))"
proof (intro conjI impI)
  assume le: "length inputs \<le> length labels"
  have "\<forall>k<length inputs. at_index (take (length inputs) labels) k = at_index labels k"
    using le by (simp add: at_index_def)
  from train_epochs_labels_cong[OF this]
  show "train nn inputs labels epochs = train nn inputs (take (length inputs) labels) epochs"
    by (simp add: train_def)
next
  assume "sint epochs \<le> 0"
  then show "train nn inputs labels epochs = (Inr [], nn)" by (simp add: train_def)
qed

lemma train_unit_network:
  "train unit_network [[1]] ([1] # extra) 1 =
     (Inr [Fin (- ln (1 + EPSILON))], unit_network\<lparr>activations := [[1]], z_values := [[2]]\<rparr>)"
proof -
  have bwd: "backward_propagation (unit_network\<lparr>activations := [[1]], z_values := [[2]]\<rparr>) [1] [1] =
      Inr (unit_network\<lparr>activations := [[1]], z_values := [[2]]\<rparr>)"
    by (simp add: backward_propagation_def unit_network_def output_delta_def for_loop_def
        update_layer_def update_weight_def update_bias_def)
  have loss: "sample_loss [1] [1] 0 = Inr (- ln (1 + EPSILON))"
    by (simp add: sample_loss_def for_loop_def)
  have epoch: "train_epoch [[1]] ([1] # extra) 0 0 unit_network =
      (Inr (- ln (1 + EPSILON)), unit_network\<lparr>activations := [[1]], z_values := [[2]]\<rparr>)"
    by (simp add: train_epoch.simps[of _ _ 0] train_epoch.simps[of _ _ "Suc 0"]
        forward_unit_network bwd loss)
  show ?thesis by (simp add: train_def epoch fp_div_def)
qed

text \<open>
  One input and two labels: the call returns normally, having trained on the first label.
\<close>

theorem train_mismatch_counterexample:
  "length [[1 :: real]] \<noteq> length [[1 :: real], [0]] \<and>
   train unit_network [[1]] [[1], [0]] 1 =
     (Inr [Fin (- ln (1 + EPSILON))], unit_network\<lparr>activations := [[1]], z_values := [[2]]\<rparr>)"
  by (simp add: train_unit_network)

theorem train_ignores_extra_labels_witness:
  "train unit_network [[1]] [[1], [0]] 1 = train unit_network [[1]] [[1]] 1 \<and>
   train unit_network [[1], [1]] [[1]] 0 = (Inr [], unit_network)"
  using train_ignores_extra_labels[of "[[1]]" "[[1], [0]]" unit_network 1]
    train_ignores_extra_labels[of "[[1], [1]]" "[[1]]" unit_network 0]
  by simp

section \<open>What backward propagation computes\<close>

lemma map_progress_step:
  "i < n \<Longrightarrow>
   (map (\<lambda>k. if k < i then f k else g k) [0..<n])[i := f i] =
   map (\<lambda>k. if k < Suc i then f k else g k) [0..<n]"
  by (rule nth_equalityI) (auto simp: nth_list_update less_Suc_eq)

lemma map_progress_start: "map (\<lambda>k. if k < 0 then f k else xs ! k) [0..<length xs] = xs"
  by (simp add: map_nth)

lemma map_progress_end: "map (\<lambda>k. if k < n then f k else g k) [0..<n] = map f [0..<n]"
  by simp

lemma output_delta_total:
  assumes "length act \<le> length target"
  shows "output_delta act target = Inr (map (\<lambda>i. act ! i - target ! i) [0..<length act])"
proof -
  let ?n = "length act"
  let ?I = "\<lambda>k d. d = map (\<lambda>i. if i < k then act ! i - target ! i else act ! i) [0..<?n]"
  have "\<exists>d. for_loop 0 ?n (\<lambda>i delta. sum_bind (at_index target i) (\<lambda>t. Inr (delta[i := delta ! i - t]))) act = Inr d
          \<and> ?I ?n d"
  proof (rule for_loop_total[where I = ?I])
    show "?I 0 act" by (simp add: map_nth)
    fix k d
    assume k: "k < ?n" and d: "?I k d"
    from k d have "d ! k = act ! k" by simp
    moreover have "d[k := act ! k - target ! k] =
        map (\<lambda>i. if i < Suc k then act ! i - target ! i else act ! i) [0..<?n]"
      unfolding d using k
      by (rule map_progress_step[where f = "\<lambda>i. act ! i - target ! i" and g = "\<lambda>i. act ! i"])
    ultimately
    show "\<exists>d'. sum_bind (at_index target k) (\<lambda>t. Inr (d[k := d ! k - t])) = Inr d' \<and> ?I (Suc k) d'"
      using k assms by simp
  qed simp
  then show ?thesis by (simp add: output_delta_def)
qed

lemma update_row_total:
  fixes t :: NeuralNetwork
  defines "prev \<equiv> \<lambda>input layer. if layer = 0 then input else activations t ! (layer - 1)"
  assumes "layer < length (weights t)" and "i < length (weights t ! layer)" and "i < length \<delta>"
    and "0 < layer \<longrightarrow> layer - 1 < length (activations t)"
    and "length (weights t ! layer ! i) \<le> length (prev input layer)"
  shows "for_loop 0 (length (weights t ! layer ! i)) (update_weight input layer \<delta> i) t =
           Inr (t\<lparr>weights := (weights t)[layer := (weights t ! layer)[i :=
                  map (\<lambda>j. weights t ! layer ! i ! j - learning_rate t * \<delta> ! i * prev input layer ! j)
                    [0..<length (weights t ! layer ! i)]]]\<rparr>)"
proof -
  define row where "row = weights t ! layer ! i"
  define W where "W = weights t ! layer"
  define new where "new = (\<lambda>j. row ! j - learning_rate t * \<delta> ! i * prev input layer ! j)"
  let ?n = "length row"
  let ?I = "\<lambda>j u. u = t\<lparr>weights := (weights t)[layer := W[i :=
                map (\<lambda>k. if k < j then new k else row ! k) [0..<?n]]]\<rparr>"
  have "\<exists>u. for_loop 0 ?n (update_weight input layer \<delta> i) t = Inr u \<and> ?I ?n u"
  proof (rule for_loop_total[where I = ?I])
    have "W[i := row] = W" by (simp add: row_def W_def)
    then show "?I 0 t" by (simp add: map_nth W_def)
    fix j u
    assume j: "j < ?n" and u: "?I j u"
    let ?R = "map (\<lambda>k. if k < j then new k else row ! k) [0..<?n]"
    have wl: "weights u ! layer = W[i := ?R]" using u assms(2) by simp
    have wi: "weights u ! layer ! i = ?R" using wl assms(3) by (simp add: W_def)
    have wj: "weights u ! layer ! i ! j = row ! j" using wi j by simp
    have au: "activations u = activations t" "learning_rate u = learning_rate t" using u by simp_all
    have x: "(if layer = 0 then at_index input j
              else sum_bind (at_index (activations u) (layer - 1)) (\<lambda>a. at_index a j)) =
             Inr (prev input layer ! j)"
      using assms(5,6) j by (auto simp: prev_def au row_def)
    have "update_weight input layer \<delta> i j u =
            Inr (u\<lparr>weights := (weights u)[layer := (weights u ! layer)[i := (weights u ! layer ! i)[j := new j]]]\<rparr>)"
      unfolding update_weight_def x using assms(4) by (simp add: wj au new_def)
    also have "(weights u)[layer := (weights u ! layer)[i := (weights u ! layer ! i)[j := new j]]] =
               (weights t)[layer := W[i := map (\<lambda>k. if k < Suc j then new k else row ! k) [0..<?n]]]"
    proof -
      have "?R[j := new j] = map (\<lambda>k. if k < Suc j then new k else row ! k) [0..<?n]"
        using j by (rule map_progress_step[where f = new and g = "\<lambda>k. row ! k"])
      then have "(weights u ! layer)[i := (weights u ! layer ! i)[j := new j]] =
            W[i := map (\<lambda>k. if k < Suc j then new k else row ! k) [0..<?n]]"
        unfolding wi unfolding wl by simp
      moreover have "(weights u)[layer := X] = (weights t)[layer := X]" for X
        using u by simp
      ultimately show ?thesis by simp
    qed
    finally show "\<exists>u'. update_weight input layer \<delta> i j u = Inr u' \<and> ?I (Suc j) u'"
      using u by simp
  qed simp
  moreover have "map (\<lambda>k. if k < ?n then new k else row ! k) [0..<?n] = map new [0..<?n]"
    by simp
  ultimately have "for_loop 0 ?n (update_weight input layer \<delta> i) t =
      Inr (t\<lparr>weights := (weights t)[layer := W[i := map new [0..<?n]]]\<rparr>)"
    by simp
  then show ?thesis unfolding new_def unfolding row_def W_def .
qed


lemma update_bias_total:
  assumes "layer < length (biases t)" and "i < length (biases t ! layer)" and "i < length \<delta>"
  shows "update_bias layer \<delta> i t =
           Inr (t\<lparr>biases := (biases t)[layer := (biases t ! layer)[i :=
                  biases t ! layer ! i - learning_rate t * \<delta> ! i]]\<rparr>)"
  using assms by (simp add: update_bias_def)

lemma update_layer_total:
  fixes nn :: NeuralNetwork
  defines "prev \<equiv> \<lambda>input layer. if layer = 0 then input else activations nn ! (layer - 1)"
  assumes "layer < length (weights nn)" and "layer < length (biases nn)"
    and "length (biases nn ! layer) = length (weights nn ! layer)"
    and "length (weights nn ! layer) \<le> length \<delta>"
    and "0 < layer \<longrightarrow> layer - 1 < length (activations nn)"
    and "\<forall>row \<in> set (weights nn ! layer). length row \<le> length (prev input layer)"
  shows "update_layer input layer \<delta> nn =
           Inr (nn\<lparr>weights := (weights nn)[layer :=
                    updated_weights (learning_rate nn) \<delta> (prev input layer) (weights nn ! layer)],
                  biases := (biases nn)[layer :=
                    updated_bias (learning_rate nn) \<delta> (biases nn ! layer)]\<rparr>)"
proof -
  define W where "W = weights nn ! layer"
  define b where "b = biases nn ! layer"
  define lr where "lr = learning_rate nn"
  define p where "p = prev input layer"
  define newrow where "newrow = (\<lambda>k. map (\<lambda>j. W ! k ! j - lr * \<delta> ! k * p ! j) [0..<length (W ! k)])"
  define newb where "newb = (\<lambda>k. b ! k - lr * \<delta> ! k)"
  define M where "M = (\<lambda>i. map (\<lambda>k. if k < i then newrow k else W ! k) [0..<length W])"
  define B where "B = (\<lambda>i. map (\<lambda>k. if k < i then newb k else b ! k) [0..<length W])"
  let ?I = "\<lambda>i u. u = nn\<lparr>weights := (weights nn)[layer := M i], biases := (biases nn)[layer := B i]\<rparr>"
  let ?body = "\<lambda>i nn1. sum_bind
            (for_loop 0 (length (weights nn1 ! layer ! i)) (update_weight input layer \<delta> i) nn1)
            (update_bias layer \<delta> i)"
  have lb: "length b = length W" using assms(4) by (simp add: b_def W_def)
  have "\<exists>u. for_loop 0 (length W) ?body nn = Inr u \<and> ?I (length W) u"
  proof (rule for_loop_total[where I = ?I])
    have "M 0 = W" by (simp add: M_def map_nth)
    moreover have "B 0 = b" unfolding B_def lb[symmetric] by (simp add: map_nth)
    ultimately show "?I 0 nn" by (simp add: W_def b_def)
    fix i u
    assume i: "i < length W" and u: "?I i u"
    have wu: "weights u = (weights nn)[layer := M i]" and bu: "biases u = (biases nn)[layer := B i]"
      and au: "activations u = activations nn" and lu: "learning_rate u = lr"
      using u by (simp_all add: lr_def)
    have wl: "weights u ! layer = M i" using wu assms(2) by simp
    have wi: "weights u ! layer ! i = W ! i" using i by (simp add: wl M_def)
    have bl: "biases u ! layer = B i" using bu assms(3) by simp
    have bi: "B i ! i = b ! i" using i by (simp add: B_def)
    have pu: "(if layer = 0 then input else activations u ! (layer - 1)) = p"
      by (simp add: au p_def prev_def)
    have rowlen: "length (W ! i) \<le> length p"
      using assms(7) i by (simp add: W_def p_def)
    have row: "for_loop 0 (length (weights u ! layer ! i)) (update_weight input layer \<delta> i) u =
           Inr (u\<lparr>weights := (weights u)[layer := (weights u ! layer)[i :=
                  map (\<lambda>j. weights u ! layer ! i ! j - learning_rate u * \<delta> ! i *
                         (if layer = 0 then input else activations u ! (layer - 1)) ! j)
                    [0..<length (weights u ! layer ! i)]]]\<rparr>)"
    proof (rule update_row_total)
      show "layer < length (weights u)" using wu assms(2) by simp
      show "i < length (weights u ! layer)" using i by (simp add: wl M_def)
      show "i < length \<delta>" using i assms(5) by (simp add: W_def)
      show "0 < layer \<longrightarrow> layer - 1 < length (activations u)" using assms(6) by (simp add: au)
      show "length (weights u ! layer ! i) \<le>
            length (if layer = 0 then input else activations u ! (layer - 1))"
        unfolding pu wi by (rule rowlen)
    qed
    have row': "for_loop 0 (length (weights u ! layer ! i)) (update_weight input layer \<delta> i) u =
           Inr (u\<lparr>weights := (weights nn)[layer := M (Suc i)]\<rparr>)"
    proof -
      have "(M i)[i := newrow i] = M (Suc i)"
        unfolding M_def using i by (rule map_progress_step[where f = newrow and g = "\<lambda>k. W ! k"])
      moreover have "map (\<lambda>j. weights u ! layer ! i ! j - learning_rate u * \<delta> ! i *
                         (if layer = 0 then input else activations u ! (layer - 1)) ! j)
                    [0..<length (weights u ! layer ! i)] = newrow i"
        unfolding pu wi lu by (simp add: newrow_def)
      ultimately show ?thesis unfolding row using assms(2) by (simp add: wu)
    qed
    let ?u1 = "u\<lparr>weights := (weights nn)[layer := M (Suc i)]\<rparr>"
    have "update_bias layer \<delta> i ?u1 =
           Inr (?u1\<lparr>biases := (biases ?u1)[layer := (biases ?u1 ! layer)[i :=
                  biases ?u1 ! layer ! i - learning_rate ?u1 * \<delta> ! i]]\<rparr>)"
    proof (rule update_bias_total)
      show "layer < length (biases ?u1)" using bu assms(3) by simp
      show "i < length (biases ?u1 ! layer)" using i bl by (simp add: B_def)
      show "i < length \<delta>" using i assms(5) by (simp add: W_def)
    qed
    moreover have "(biases ?u1)[layer := (biases ?u1 ! layer)[i :=
                  biases ?u1 ! layer ! i - learning_rate ?u1 * \<delta> ! i]] =
                  (biases nn)[layer := B (Suc i)]"
    proof -
      have "(B i)[i := newb i] = B (Suc i)"
        unfolding B_def using i by (rule map_progress_step[where f = newb and g = "\<lambda>k. b ! k"])
      moreover have "biases ?u1 ! layer ! i - learning_rate ?u1 * \<delta> ! i = newb i"
        by (simp add: bl bi lu newb_def)
      ultimately show ?thesis using assms(3) by (simp add: bu)
    qed
    ultimately have "update_bias layer \<delta> i ?u1 =
        Inr (?u1\<lparr>biases := (biases nn)[layer := B (Suc i)]\<rparr>)"
      by simp
    with row' have "?body i u = Inr (?u1\<lparr>biases := (biases nn)[layer := B (Suc i)]\<rparr>)"
      by simp
    moreover have "?I (Suc i) (?u1\<lparr>biases := (biases nn)[layer := B (Suc i)]\<rparr>)"
      using u by simp
    ultimately show "\<exists>u'. ?body i u = Inr u' \<and> ?I (Suc i) u'" by blast
  qed simp
  moreover have "M (length W) = updated_weights lr \<delta> p W"
    by (simp add: M_def updated_weights_def newrow_def)
  moreover have "B (length W) = updated_bias lr \<delta> b"
    unfolding B_def lb[symmetric] by (simp add: updated_bias_def newb_def)
  ultimately have "for_loop 0 (length W) ?body nn =
      Inr (nn\<lparr>weights := (weights nn)[layer := updated_weights lr \<delta> p W],
              biases := (biases nn)[layer := updated_bias lr \<delta> b]\<rparr>)"
    by simp
  then show ?thesis
    unfolding update_layer_def W_def b_def lr_def p_def .
qed


lemma column_sum_total:
  assumes "j < length nd0" and "n \<le> length \<delta>" and "n \<le> length W"
    and "\<forall>i<n. j < length (W ! i)"
  shows "for_loop 0 n
           (\<lambda>i nd. sum_bind (at_index \<delta> i) (\<lambda>d.
                    sum_bind (at_index (W ! i) j) (\<lambda>w. Inr (nd[j := nd ! j + d * w]))))
           nd0 =
         Inr (nd0[j := nd0 ! j + (\<Sum>i<n. \<delta> ! i * W ! i ! j)])"
proof -
  let ?I = "\<lambda>i nd. nd = nd0[j := nd0 ! j + (\<Sum>k<i. \<delta> ! k * W ! k ! j)]"
  have "\<exists>nd. for_loop 0 n
           (\<lambda>i nd. sum_bind (at_index \<delta> i) (\<lambda>d.
                    sum_bind (at_index (W ! i) j) (\<lambda>w. Inr (nd[j := nd ! j + d * w]))))
           nd0 = Inr nd \<and> ?I n nd"
  proof (rule for_loop_total[where I = ?I])
    show "?I 0 nd0" by simp
    fix i nd
    assume i: "i < n" and nd: "?I i nd"
    from nd assms(1) have "nd ! j = nd0 ! j + (\<Sum>k<i. \<delta> ! k * W ! k ! j)" by simp
    with i assms nd
    show "\<exists>nd'. sum_bind (at_index \<delta> i) (\<lambda>d.
                    sum_bind (at_index (W ! i) j) (\<lambda>w. Inr (nd[j := nd ! j + d * w]))) = Inr nd' \<and>
                ?I (Suc i) nd'"
      by (simp add: add.assoc)
  qed simp
  then show ?thesis by simp
qed

lemma propagate_delta_total:
  assumes "weights nn ! layer \<noteq> []"
    and "length (weights nn ! layer) \<le> length \<delta>"
    and "\<forall>row \<in> set (weights nn ! layer). length (weights nn ! layer ! 0) \<le> length row"
    and "layer - 1 < length (z_values nn)"
    and "length (weights nn ! layer ! 0) \<le> length (z_values nn ! (layer - 1))"
  shows "propagate_delta nn layer \<delta> =
           Inr (propagated_delta \<delta> (weights nn ! layer) (z_values nn ! (layer - 1)))"
proof -
  define W where "W = weights nn ! layer"
  define z where "z = z_values nn ! (layer - 1)"
  define m where "m = length (W ! 0)"
  define fin where "fin = (\<lambda>j. (\<Sum>i<length W. \<delta> ! i * W ! i ! j) * relu_derivative (z ! j))"
  let ?I = "\<lambda>j nd. nd = map (\<lambda>k. if k < j then fin k else 0) [0..<m]"
  let ?body = "\<lambda>j new_delta.
            sum_bind
              (for_loop 0 (length W)
                 (\<lambda>i nd.
                    sum_bind (at_index \<delta> i) (\<lambda>d.
                    sum_bind (at_index (W ! i) j) (\<lambda>w.
                      Inr (nd[j := nd ! j + d * w]))))
                 new_delta)
              (\<lambda>nd.
                 sum_bind (at_index (z_values nn) (layer - 1)) (\<lambda>z.
                 sum_bind (at_index z j) (\<lambda>zj.
                   Inr (nd[j := nd ! j * (if zj > 0 then 1 else 0)]))))"
  have rows: "\<forall>i<length W. m \<le> length (W ! i)"
    using assms(3) by (simp add: W_def m_def)
  have "\<exists>nd. for_loop 0 m ?body (replicate m 0) = Inr nd \<and> ?I m nd"
  proof (rule for_loop_total[where I = ?I])
    show "?I 0 (replicate m 0)" by (simp add: map_replicate_const)
    fix j nd
    assume j: "j < m" and nd: "?I j nd"
    have ndj: "nd ! j = 0" and ln: "length nd = m" using nd j by simp_all
    have "for_loop 0 (length W)
                 (\<lambda>i nd.
                    sum_bind (at_index \<delta> i) (\<lambda>d.
                    sum_bind (at_index (W ! i) j) (\<lambda>w.
                      Inr (nd[j := nd ! j + d * w]))))
                 nd = Inr (nd[j := nd ! j + (\<Sum>i<length W. \<delta> ! i * W ! i ! j)])"
      using j ln assms(2) rows by (intro column_sum_total) (auto simp: W_def)
    moreover have "at_index z j = Inr (z ! j)" using j assms(5) by (simp add: z_def m_def W_def)
    moreover have "z_values nn ! (layer - Suc 0) = z" by (simp add: z_def)
    ultimately have "?body j nd = Inr (nd[j := fin j])"
      using assms(4) j ln by (simp add: ndj fin_def relu_derivative_def)
    moreover have "nd[j := fin j] = map (\<lambda>k. if k < Suc j then fin k else 0) [0..<m]"
      unfolding nd using j by (rule map_progress_step[where f = fin and g = "\<lambda>k. 0"])
    ultimately show "\<exists>nd'. ?body j nd = Inr nd' \<and> ?I (Suc j) nd'" by simp
  qed simp
  then have "for_loop 0 m ?body (replicate m 0) = Inr (map fin [0..<m])" by simp
  moreover have "at_index W 0 = Inr (W ! 0)" using assms(1) by (simp add: W_def)
  ultimately show ?thesis
    unfolding propagate_delta_def propagated_delta_def W_def[symmetric] z_def[symmetric]
    by (simp add: m_def fin_def)
qed


lemma length_updated_weights [simp]: "length (updated_weights lr \<delta> p W) = length W"
  by (simp add: updated_weights_def)

lemma length_updated_weights_row [simp]:
  "i < length W \<Longrightarrow> length (updated_weights lr \<delta> p W ! i) = length (W ! i)"
  by (simp add: updated_weights_def)

lemma length_updated_bias [simp]: "length (updated_bias lr \<delta> b) = length b"
  by (simp add: updated_bias_def)

lemma length_propagated_delta [simp]: "length (propagated_delta \<delta> W z) = length (W ! 0)"
  by (simp add: propagated_delta_def)

lemma updated_weights_row_lengths:
  assumes "\<forall>row \<in> set W. length row = c" and "row' \<in> set (updated_weights lr \<delta> p W)"
  shows "length row' = c"
proof -
  from assms(2) obtain i where i: "i < length W" "row' = updated_weights lr \<delta> p W ! i"
    by (auto simp: in_set_conv_nth)
  with assms(1) show ?thesis by simp
qed

lemma backward_loop_total:
  assumes "backward_ready input l t" and "0 < l \<longrightarrow> length \<delta> = length (weights t ! (l - 1))"
  shows "backward_loop input l \<delta> t =
           Inr (t\<lparr>weights := fst (backward_in_place (learning_rate t) input (activations t) (z_values t)
                                    l \<delta> (weights t, biases t)),
                  biases := snd (backward_in_place (learning_rate t) input (activations t) (z_values t)
                                    l \<delta> (weights t, biases t))\<rparr>)"
  using assms
proof (induction l arbitrary: \<delta> t)
  case 0
  show ?case by simp
next
  case (Suc l)
  define W where "W = weights t ! l"
  define p where "p = (if l = 0 then input else activations t ! (l - 1))"
  define W' where "W' = updated_weights (learning_rate t) \<delta> p W"
  define b' where "b' = updated_bias (learning_rate t) \<delta> (biases t ! l)"
  define t1 where "t1 = t\<lparr>weights := (weights t)[l := W'], biases := (biases t)[l := b']\<rparr>"
  define \<delta>' where "\<delta>' = (if l = 0 then \<delta> else propagated_delta \<delta> W' (z_values t ! (l - 1)))"
  from Suc.prems(1) have r: "l < length (weights t)" "length (biases t) = length (weights t)"
    "length (activations t) = length (weights t)" "length (z_values t) = length (weights t)"
    and lay: "\<forall>k<Suc l.
        weights t ! k \<noteq> [] \<and> length (biases t ! k) = length (weights t ! k) \<and>
        (\<forall>row \<in> set (weights t ! k).
           length row = (if k = 0 then length input else length (weights t ! (k - 1)))) \<and>
        (0 < k \<longrightarrow>
           length (activations t ! (k - 1)) = length (weights t ! (k - 1)) \<and>
           length (z_values t ! (k - 1)) = length (weights t ! (k - 1)))"
    by (simp_all add: backward_ready_def)
  from lay have Wne: "W \<noteq> []" and bl: "length (biases t ! l) = length W"
    and rows: "\<forall>row \<in> set W. length row = (if l = 0 then length input else length (weights t ! (l - 1)))"
    and cache: "0 < l \<longrightarrow> length (activations t ! (l - 1)) = length (weights t ! (l - 1)) \<and>
           length (z_values t ! (l - 1)) = length (weights t ! (l - 1))"
    by (simp_all add: W_def)
  have dl: "length \<delta> = length W" using Suc.prems(2) by (simp add: W_def)
  have rowsp: "\<forall>row \<in> set W. length row = length p"
    using rows cache by (simp add: p_def)
  have upd: "update_layer input l \<delta> t = Inr t1"
    unfolding t1_def W'_def b'_def W_def p_def
    using r bl dl rowsp by (intro update_layer_total) (auto simp: W_def p_def)
  have t1: "weights t1 = (weights t)[l := W']" "biases t1 = (biases t)[l := b']"
    "activations t1 = activations t" "z_values t1 = z_values t" "learning_rate t1 = learning_rate t"
    by (simp_all add: t1_def)
  have W'rows: "\<forall>row \<in> set W'. length row = length p"
    using updated_weights_row_lengths[OF rowsp] by (auto simp: W'_def)
  have W'ne: "W' \<noteq> []" using Wne by (auto simp: W'_def updated_weights_def)
  have pdl: "propagate_delta t1 l \<delta> = Inr \<delta>'" if "0 < l"
  proof -
    have wl: "weights t1 ! l = W'" using r by (simp add: t1)
    have "W' ! 0 \<in> set W'" using W'ne by simp
    with W'rows have l0: "length (W' ! 0) = length p" by blast
    have "propagate_delta t1 l \<delta> =
           Inr (propagated_delta \<delta> (weights t1 ! l) (z_values t1 ! (l - 1)))"
    proof (rule propagate_delta_total)
      show "weights t1 ! l \<noteq> []" using W'ne by (simp add: wl)
      show "length (weights t1 ! l) \<le> length \<delta>" using dl by (simp add: wl W'_def)
      show "\<forall>row \<in> set (weights t1 ! l). length (weights t1 ! l ! 0) \<le> length row"
        using W'rows l0 by (simp add: wl)
      show "l - 1 < length (z_values t1)" using r that by (simp add: t1)
      show "length (weights t1 ! l ! 0) \<le> length (z_values t1 ! (l - 1))"
        unfolding wl using cache that l0 by (simp add: t1(4) p_def)
    qed
    then show ?thesis unfolding wl using that by (simp add: \<delta>'_def t1(4))
  qed
  have step: "backward_loop input (Suc l) \<delta> t = backward_loop input l \<delta>' t1"
    using upd pdl by (simp add: \<delta>'_def)
  have ready: "backward_ready input l t1"
  proof -
    have same: "weights t1 ! k = weights t ! k" "biases t1 ! k = biases t ! k"
      "weights t1 ! (k - 1) = weights t ! (k - 1)" if "k < l" for k
      using that by (simp_all add: t1)
    have "weights t1 ! k \<noteq> [] \<and> length (biases t1 ! k) = length (weights t1 ! k) \<and>
        (\<forall>row \<in> set (weights t1 ! k).
           length row = (if k = 0 then length input else length (weights t1 ! (k - 1)))) \<and>
        (0 < k \<longrightarrow>
           length (activations t1 ! (k - 1)) = length (weights t1 ! (k - 1)) \<and>
           length (z_values t1 ! (k - 1)) = length (weights t1 ! (k - 1)))" if "k < l" for k
    proof -
      from that have "k < Suc l" by simp
      with lay have "weights t ! k \<noteq> [] \<and> length (biases t ! k) = length (weights t ! k) \<and>
        (\<forall>row \<in> set (weights t ! k).
           length row = (if k = 0 then length input else length (weights t ! (k - 1)))) \<and>
        (0 < k \<longrightarrow>
           length (activations t ! (k - 1)) = length (weights t ! (k - 1)) \<and>
           length (z_values t ! (k - 1)) = length (weights t ! (k - 1)))"
        by blast
      then show ?thesis unfolding same[OF that] t1(3,4) .
    qed
    moreover have "l \<le> length (weights t1)" "length (biases t1) = length (weights t1)"
      "length (activations t1) = length (weights t1)" "length (z_values t1) = length (weights t1)"
      using r by (simp_all add: t1)
    ultimately show ?thesis unfolding backward_ready_def by blast
  qed
  have len': "0 < l \<longrightarrow> length \<delta>' = length (weights t1 ! (l - 1))"
  proof
    assume pos: "0 < l"
    have "W' ! 0 \<in> set W'" using W'ne by simp
    with W'rows have "length (W' ! 0) = length p" by blast
    with pos cache show "length \<delta>' = length (weights t1 ! (l - 1))"
      by (simp add: \<delta>'_def p_def t1)
  qed
  have spec: "backward_in_place (learning_rate t) input (activations t) (z_values t) (Suc l) \<delta>
                (weights t, biases t) =
              backward_in_place (learning_rate t) input (activations t) (z_values t) l \<delta>'
                (weights t1, biases t1)"
    by (simp add: Let_def t1 W'_def b'_def \<delta>'_def p_def W_def)
  show ?case
    unfolding step Suc.IH[OF ready len'] spec by (simp add: t1 t1_def)
qed


lemma layer_counter: "0 < n \<Longrightarrow> n < 2 ^ 31 \<Longrightarrow> nat (sint (word_of_nat n - 1 :: c_int) + 1) = n"
proof -
  assume n: "0 < n" "n < 2 ^ 31"
  then have "word_of_nat n - 1 = (word_of_nat (n - 1) :: c_int)" by (simp add: of_nat_diff)
  moreover have "sint (word_of_nat (n - 1) :: c_int) = int (n - 1)"
    using n by (intro sint_word_of_nat) simp
  ultimately show ?thesis using n by simp
qed

lemma map2_minus_nth:
  "length xs = length ys \<Longrightarrow> map (\<lambda>i. xs ! i - ys ! i) [0..<length xs] = map2 (-) xs (ys :: real list)"
  by (rule nth_equalityI) simp_all

lemma backward_propagation_total:
  assumes "backward_ready input (length (weights t)) t" and "weights t \<noteq> []"
    and "length (weights t) < 2 ^ 31"
    and "length (last (activations t)) = length (last (weights t))"
    and "length target = length (last (weights t))"
  shows "backward_propagation t input target =
           Inr (t\<lparr>weights := fst (backward_in_place (learning_rate t) input (activations t) (z_values t)
                                    (length (weights t)) (map2 (-) (last (activations t)) target)
                                    (weights t, biases t)),
                  biases := snd (backward_in_place (learning_rate t) input (activations t) (z_values t)
                                    (length (weights t)) (map2 (-) (last (activations t)) target)
                                    (weights t, biases t))\<rparr>)"
proof -
  define \<delta> where "\<delta> = map2 (-) (last (activations t)) target"
  from assms(1) have la: "length (activations t) = length (weights t)"
    by (simp add: backward_ready_def)
  with assms(2) have ane: "activations t \<noteq> []" by auto
  have "length (last (activations t)) = length target" using assms(4,5) by simp
  from map2_minus_nth[OF this]
  have od: "output_delta (last (activations t)) target = Inr \<delta>"
    using output_delta_total[of "last (activations t)" target] assms(4,5)
    by (simp only: \<delta>_def)
  have cnt: "nat (sint (word_of_nat (length (weights t)) - 1 :: c_int) + 1) = length (weights t)"
    using assms(2,3) by (intro layer_counter) simp_all
  have "length \<delta> = length (weights t ! (length (weights t) - 1))"
    using assms(2,4,5) by (simp add: \<delta>_def last_conv_nth)
  then have "backward_loop input (length (weights t)) \<delta> t =
           Inr (t\<lparr>weights := fst (backward_in_place (learning_rate t) input (activations t) (z_values t)
                                    (length (weights t)) \<delta> (weights t, biases t)),
                  biases := snd (backward_in_place (learning_rate t) input (activations t) (z_values t)
                                    (length (weights t)) \<delta> (weights t, biases t))\<rparr>)"
    using assms(1) by (intro backward_loop_total) simp_all
  then show ?thesis
    unfolding backward_propagation_def od cnt \<delta>_def[symmetric] using ane by simp
qed

lemma backward_ready_after_forward:
  assumes "well_dimensioned nn input" and "\<forall>W \<in> set (weights nn). W \<noteq> []"
    and "weights nn' = weights nn" and "biases nn' = biases nn" and "cache_well_formed nn'"
  shows "backward_ready input (length (weights nn')) nn'"
proof -
  from assms(1) have sh: "shape_invariant (length input # map length (weights nn)) nn"
    by (simp add: well_dimensioned_def)
  have lay: "weights nn ! k \<noteq> [] \<and> length (biases nn ! k) = length (weights nn ! k) \<and>
        (\<forall>row \<in> set (weights nn ! k).
           length row = (if k = 0 then length input else length (weights nn ! (k - 1))))"
    if "k < length (weights nn)" for k
  proof -
    from that assms(2) have "weights nn ! k \<noteq> []" by simp
    moreover from sh that have "length (biases nn ! k) = length (weights nn ! k)"
      by (simp add: shape_invariant_def)
    moreover from sh that
    have "\<forall>row \<in> set (weights nn ! k). length row = (length input # map length (weights nn)) ! k"
      by (simp add: shape_invariant_def)
    then have "\<forall>row \<in> set (weights nn ! k).
           length row = (if k = 0 then length input else length (weights nn ! (k - 1)))"
      using that by (cases k) simp_all
    ultimately show ?thesis by blast
  qed
  from assms(5) have c: "length (z_values nn') = length (weights nn)"
    "length (activations nn') = length (weights nn)"
    "\<forall>i<length (weights nn). length (z_values nn' ! i) = length (weights nn ! i) \<and>
        length (activations nn' ! i) = length (weights nn ! i)"
    by (simp_all add: cache_well_formed_def assms(3))
  have "0 < k \<longrightarrow> length (activations nn' ! (k - 1)) = length (weights nn ! (k - 1)) \<and>
           length (z_values nn' ! (k - 1)) = length (weights nn ! (k - 1))"
    if "k < length (weights nn)" for k
    using c(3) that by simp
  with lay sh c(1,2) show ?thesis
    unfolding backward_ready_def assms(3,4) by (simp add: shape_invariant_def)
qed

text \<open>
  What the code computes: forward propagation followed by backward propagation on the same
  input, for a network and an input that fit, no empty layer, a target as long as the output
  and fewer than \<open>2\<^sup>3\<^sup>1\<close> layers. Both calls return, and the parameters after the backward
  call are those of \<open>backward_in_place\<close>.
\<close>

lemma backward_propagation_in_place:
  assumes "well_dimensioned nn input" and "\<forall>W \<in> set (weights nn). W \<noteq> []"
    and "length target = length (last (weights nn))" and "length (weights nn) < 2 ^ 31"
  shows "\<exists>out nn1.
           forward_propagation nn input = (Inr out, nn1) \<and>
           backward_propagation nn1 input target =
             Inr (nn1\<lparr>weights := fst (backward_in_place (learning_rate nn) input (activations nn1)
                                        (z_values nn1) (length (weights nn)) (map2 (-) out target)
                                        (weights nn, biases nn)),
                      biases := snd (backward_in_place (learning_rate nn) input (activations nn1)
                                        (z_values nn1) (length (weights nn)) (map2 (-) out target)
                                        (weights nn, biases nn))\<rparr>)"
proof -
  from forward_propagation_output[OF assms(1)] obtain out nn1 where
    run: "forward_propagation nn input = (Inr out, nn1)"
    and keep: "weights nn1 = weights nn" "biases nn1 = biases nn" "learning_rate nn1 = learning_rate nn"
    and cache: "cache_well_formed nn1" and lastact: "last (activations nn1) = out"
    and len: "length out = length (last (weights nn))"
    by blast
  from assms(1) have ne: "weights nn \<noteq> []" by (simp add: well_dimensioned_def)
  have ready: "backward_ready input (length (weights nn1)) nn1"
    using assms(1,2) keep(1,2) cache by (rule backward_ready_after_forward)
  have "backward_propagation nn1 input target =
           Inr (nn1\<lparr>weights := fst (backward_in_place (learning_rate nn1) input (activations nn1) (z_values nn1)
                                    (length (weights nn1)) (map2 (-) (last (activations nn1)) target)
                                    (weights nn1, biases nn1)),
                  biases := snd (backward_in_place (learning_rate nn1) input (activations nn1) (z_values nn1)
                                    (length (weights nn1)) (map2 (-) (last (activations nn1)) target)
                                    (weights nn1, biases nn1))\<rparr>)"
    using ready ne assms(3,4) len by (intro backward_propagation_total) (simp_all add: keep lastact)
  with run show ?thesis unfolding keep lastact by blast
qed

section \<open>The order of update and propagation\<close>

lemma softmax_zero_pair: "softmax [0, 0] = Inr [1 / 2, 1 / 2]"
  by (simp add: softmax_def max_element_def)

lemma forward_order_network:
  "forward_propagation order_network [1] = (Inr [1 / 2, 1 / 2], order_forwarded)"
  by (simp add: forward_propagation_def order_network_def order_forwarded_def
      forward_loop.simps[of 0] forward_loop.simps[of "Suc 0"] forward_loop.simps[of "Suc (Suc 0)"]
      layer_z_def for_loop_def dot_product_def apply_function_def softmax_zero_pair
      upt_rec[of 0] upt_rec[of 1] upt_rec[of "Suc 0"])

lemma backward_order_network:
  "backward_propagation order_forwarded [1] [1, 0] =
     Inr (order_forwarded\<lparr>weights := [[[3 / 8], [3 / 8]], [[1 / 8, 1 / 8], [- (1 / 8), - (1 / 8)]]],
                           biases := [[1 / 8, 1 / 8], [1 / 2, - (1 / 2)]]\<rparr>)"
  by (simp add: backward_propagation_def order_network_def order_forwarded_def output_delta_def
      for_loop_def update_layer_def update_weight_def update_bias_def propagate_delta_def
      numeral_2_eq_2 upt_rec[of 0] upt_rec[of 1] upt_rec[of "Suc 0"])

lemma backward_spec_order_network:
  "backward_spec (learning_rate order_network) [1] (activations order_forwarded)
     (z_values order_forwarded) (length (weights order_network)) (map2 (-) [1 / 2, 1 / 2] [1, 0])
     (weights order_network, biases order_network) =
   ([[[1 / 4], [1 / 4]], [[1 / 8, 1 / 8], [- (1 / 8), - (1 / 8)]]], [[0, 0], [1 / 2, - (1 / 2)]])"
  by (simp add: order_network_def order_forwarded_def numeral_2_eq_2 Let_def
      updated_weights_def updated_bias_def propagated_delta_def relu_derivative_def
      upt_rec[of 0] upt_rec[of 1] upt_rec[of "Suc 0"] lessThan_Suc)

lemma construct_order_network: "NeuralNetwork_new quarter_dis [1, 2, 2] 1 = Inr order_network"
  by (simp add: NeuralNetwork_new_def for_loop_def upt_rec[of 1] upt_rec[of 2] upt_rec[of 3]
      add_layer_def vector_n_nonnegative replicate_2_3 quarter_dis_def order_network_def)

lemma train_order_network:
  "train order_network [[1]] [[1, 0]] 1 =
     (Inr [Fin (- ln (1 / 2 + EPSILON))],
      order_forwarded\<lparr>weights := [[[3 / 8], [3 / 8]], [[1 / 8, 1 / 8], [- (1 / 8), - (1 / 8)]]],
                       biases := [[1 / 8, 1 / 8], [1 / 2, - (1 / 2)]]\<rparr>)"
proof -
  have loss: "sample_loss [1, 0] [1 / 2, 1 / 2] 0 = Inr (- ln (1 / 2 + EPSILON))"
    by (simp add: sample_loss_def for_loop_def upt_rec[of 0] upt_rec[of 1] upt_rec[of "Suc 0"]
        numeral_2_eq_2)
  have epoch: "train_epoch [[1]] [[1, 0]] 0 0 order_network =
      (Inr (- ln (1 / 2 + EPSILON)),
       order_forwarded\<lparr>weights := [[[3 / 8], [3 / 8]], [[1 / 8, 1 / 8], [- (1 / 8), - (1 / 8)]]],
                        biases := [[1 / 8, 1 / 8], [1 / 2, - (1 / 2)]]\<rparr>)"
    by (simp add: train_epoch.simps[of _ _ 0] train_epoch.simps[of _ _ "Suc 0"]
        forward_order_network backward_order_network loss)
  show ?thesis by (simp add: train_def epoch fp_div_def)
qed

text \<open>
  Claim C5. The claim holds of \<open>backward_spec\<close>, not of the code. On the network that the
  constructor returns for the architecture \<open>[1, 2, 2]\<close>, learning rate \<open>1\<close> and the draws
  \<open>1/4, 1/4, 0, 0, 0, 0\<close>, with the input \<open>[1]\<close> and the target \<open>[1, 0]\<close>, the output is
  \<open>[1/2, 1/2]\<close> and the matrix of the last layer is zero, so no error reaches the first layer
  and a gradient-descent step leaves its weights at \<open>1/4\<close> and its biases at \<open>0\<close>. The code
  overwrites the last matrix before it propagates the error through it, and moves the first
  layer's weights to \<open>3/8\<close> and its biases to \<open>1/8\<close>. The last layer agrees. \<open>train\<close> on this
  one sample for one epoch leaves the network in that state.
\<close>

theorem backward_propagation_order_bug:
  "NeuralNetwork_new quarter_dis [1, 2, 2] 1 = Inr order_network \<and>
   forward_propagation order_network [1] = (Inr [1 / 2, 1 / 2], order_forwarded) \<and>
   backward_propagation order_forwarded [1] [1, 0] =
     Inr (order_forwarded\<lparr>weights := [[[3 / 8], [3 / 8]], [[1 / 8, 1 / 8], [- (1 / 8), - (1 / 8)]]],
                           biases := [[1 / 8, 1 / 8], [1 / 2, - (1 / 2)]]\<rparr>) \<and>
   backward_spec (learning_rate order_network) [1] (activations order_forwarded)
       (z_values order_forwarded) (length (weights order_network)) (map2 (-) [1 / 2, 1 / 2] [1, 0])
       (weights order_network, biases order_network) =
     ([[[1 / 4], [1 / 4]], [[1 / 8, 1 / 8], [- (1 / 8), - (1 / 8)]]], [[0, 0], [1 / 2, - (1 / 2)]]) \<and>
   snd (train order_network [[1]] [[1, 0]] 1) =
     order_forwarded\<lparr>weights := [[[3 / 8], [3 / 8]], [[1 / 8, 1 / 8], [- (1 / 8), - (1 / 8)]]],
                      biases := [[1 / 8, 1 / 8], [1 / 2, - (1 / 2)]]\<rparr>"
  by (intro conjI construct_order_network forward_order_network backward_order_network
      backward_spec_order_network) (simp add: train_order_network)

end
